theory Spec2Isabelle
  imports Main "HOL-Library.AList"
begin

section \<open>Values, errors and the collaborators of the world runner\<close>

text \<open>
  The runner of \<^verbatim>\<open>world_runner.py\<close> handles Python values that it never inspects beyond
  \<^verbatim>\<open>is None\<close> and truthiness: the result of \<^verbatim>\<open>parley()\<close>, the route returned by an overworld,
  the names of worlds.  They are \<^verbatim>\<open>None\<close> or a string.
\<close>

datatype pyval = PNone | PStr string

fun truthy :: "pyval \<Rightarrow> bool" where
  "truthy PNone = False"
| "truthy (PStr s) = (s \<noteq> [])"

type_synonym pydict = "(string \<times> pyval) list"

type_synonym wid = nat
type_synonym tid = nat
type_synonym jid = nat
type_synonym asid = nat

datatype agent = Agent (agent_ref: nat) (agent_id: string)

datatype error =
    Raised string
  | UnboundLocalError string
  | RuntimeError string
  | AttributeError string

text \<open>
  The collaborators (the world module, the world objects, the manager and its agent states,
  the clock) are parameters: a record of functions over an external state \<open>'e\<close>.  A call that
  may raise returns \<open>Inl\<close> of the error.  The identity of a freshly constructed world is chosen
  by the runner's state (\<open>next_wid\<close>), as object identity is in Python.
\<close>

record 'e collab =
  generate_world :: "pyval \<Rightarrow> agent list \<Rightarrow> wid \<Rightarrow> 'e \<Rightarrow> error + 'e"
  episode_done :: "wid \<Rightarrow> 'e \<Rightarrow> bool"
  parley :: "wid \<Rightarrow> 'e \<Rightarrow> error + (pyval \<times> 'e)"
  world_shutdown :: "wid \<Rightarrow> 'e \<Rightarrow> error + 'e"
  world_data :: "wid \<Rightarrow> 'e \<Rightarrow> pydict option"
  return_overworld :: "wid \<Rightarrow> 'e \<Rightarrow> error + 'e"
  get_agent_state :: "string \<Rightarrow> 'e \<Rightarrow> error + asid"
  create_agent :: "string \<Rightarrow> string \<Rightarrow> 'e \<Rightarrow> error + (agent \<times> 'e)"
  set_active_agent :: "asid \<Rightarrow> agent \<Rightarrow> 'e \<Rightarrow> error + 'e"
  assign_agent_to_task :: "asid \<Rightarrow> agent \<Rightarrow> string \<Rightarrow> 'e \<Rightarrow> error + 'e"
  get_active_agent :: "asid \<Rightarrow> 'e \<Rightarrow> agent option"
  set_onboard_data :: "asid \<Rightarrow> pydict \<Rightarrow> 'e \<Rightarrow> 'e"
  add_agent_to_pool :: "asid \<Rightarrow> pyval \<Rightarrow> 'e \<Rightarrow> error + 'e"
  time_now :: "'e \<Rightarrow> string"

section \<open>The runner's state\<close>

text \<open>
  Modelled from the spec: \<^verbatim>\<open>TaskState\<close> of \<^verbatim>\<open>shared_utils\<close>, which is not part of the source
  at hand.  The registry entry holds the task name, the world kind, the agents, the overworld
  marker, the handle of the job and the session instance; the last two are null at creation.
\<close>

record task_state =
  task_name :: string
  task_world_name :: pyval
  task_agents :: "agent list"
  is_overworld :: bool
  task_world_type :: pyval
  future :: "jid option"
  world :: "wid option"

definition TaskState :: "string \<Rightarrow> pyval \<Rightarrow> agent list \<Rightarrow> bool \<Rightarrow> pyval \<Rightarrow> task_state" where
  "TaskState n wn ags ow wt =
     \<lparr>task_name = n, task_world_name = wn, task_agents = ags, is_overworld = ow,
      task_world_type = wt, future = None, world = None\<rparr>"

text \<open>
  Every call to a collaborator, every sleep and every read of the stop flag by a loop is
  recorded in a trace, tagged with the thread that made it: the main thread (the caller of
  the launch operations and of \<^verbatim>\<open>shutdown\<close>) or the pool worker running job \<open>j\<close>.
  Sleeps are in milliseconds.
\<close>

datatype actor = Main | Worker jid

datatype event =
    EvLog string
  | EvPrint string
  | EvGenerateWorld pyval "agent list" wid
  | EvEpisodeDone wid bool
  | EvStopFlag bool
  | EvParley wid "error + pyval"
  | EvSleep nat
  | EvWorldShutdown wid
  | EvData wid "pydict option"
  | EvReturnOverworld wid
  | EvGetAgentState string
  | EvCreateAgent string string
  | EvSetActiveAgent asid agent
  | EvAssignAgentToTask asid agent string
  | EvSetOnboardData asid pydict
  | EvAddAgentToPool asid pyval
  | EvGetActiveAgent asid

text \<open>The control points of \<^verbatim>\<open>_run_world\<close> (lines 65 to 77), with its live locals.\<close>

datatype rw_ctl =
    RW_Generate tid pyval "agent list"
  | RW_Test wid pyval
  | RW_Parley wid pyval
  | RW_Sleep wid pyval
  | RW_Shutdown wid pyval
  | RW_Return wid pyval

datatype rw_result = RW_Next rw_ctl | RW_Ret pyval pydict | RW_Raise error

text \<open>
  The closure variables of \<^verbatim>\<open>_world_function\<close> (lines 123 to 131), its locals that live
  across the loop (\<open>world_type\<close> is unbound until the first \<^verbatim>\<open>parley\<close> returns), and its
  control points (lines 134 to 161).
\<close>

record ow_frame =
  ow_task :: tid
  overworld_name :: pyval
  onboard_map :: "(pyval \<times> pyval) list"
  overworld_agent :: agent
  agent_state :: asid

record ow_locals =
  overworld :: wid
  world_type :: "pyval option"

datatype ow_ctl =
    OW_Generate
  | OW_Test ow_locals
  | OW_Parley ow_locals
  | OW_PollSleep ow_locals
  | OW_Lookup ow_locals
  | OW_Create ow_locals pyval string
  | OW_SetActive ow_locals pyval string agent
  | OW_Assign ow_locals pyval string agent
  | OW_Run ow_locals rw_ctl
  | OW_Store ow_locals pydict
  | OW_AddPool ow_locals
  | OW_Log ow_locals
  | OW_Settle ow_locals
  | OW_WaitTest ow_locals
  | OW_WaitSleep ow_locals
  | OW_ReturnOverworld ow_locals
  | OW_Return ow_locals

datatype ow_result = OW_Next ow_ctl | OW_Ret pyval | OW_Raise error

datatype outcome = TaskResult pyval pydict | OverResult pyval

datatype job =
    TaskStart string tid pyval "agent list"
  | TaskRun rw_ctl
  | OverRun ow_frame ow_ctl
  | Done outcome
  | Failed error

text \<open>
  The control points of \<^verbatim>\<open>shutdown\<close> (lines 42 to 49): the head of the \<^verbatim>\<open>for\<close> loop with
  the registry entries still to visit and the test of line 43, the release of line 44, the
  write of the stop flag, the log, the call of \<^verbatim>\<open>executor.shutdown()\<close>, its wait for the
  pool to drain, and the last log.  The thread that calls the launch operations and
  \<^verbatim>\<open>shutdown\<close> is idle, inside \<^verbatim>\<open>shutdown\<close>, or back from it with a return or an error.
\<close>

datatype sd_ctl =
    SD_Loop "tid list"
  | SD_Release tid "tid list"
  | SD_SetFlag
  | SD_Log
  | SD_Executor
  | SD_Wait
  | SD_Complete

datatype sd_result = SD_Next sd_ctl | SD_Ret | SD_Raise error

datatype main_ctl = M_Idle | M_Shutdown sd_ctl | M_Returned | M_Raised error

record 'e state =
  system_done :: bool
  executor_down :: bool
  debug :: bool
  tasks :: "(string \<times> tid) list"
  task_objs :: "task_state list"
  jobs :: "job list"
  main :: main_ctl
  next_wid :: wid
  env :: 'e
  trace :: "(actor \<times> event) list"

definition emit :: "actor \<Rightarrow> event \<Rightarrow> 'e state \<Rightarrow> 'e state" where
  "emit a ev s = s\<lparr>trace := trace s @ [(a, ev)]\<rparr>"

text \<open>\<^verbatim>\<open>__init__\<close> (lines 24 to 33): the flag is false, the registry is empty.\<close>

definition debug_log :: "string \<Rightarrow> 'e state \<Rightarrow> 'e state" where
  "debug_log text s = (if debug s then emit Main (EvPrint text) s else s)"

definition init :: "bool \<Rightarrow> 'e \<Rightarrow> 'e state" where
  "init is_debug e =
     debug_log ''Found world module''
       \<lparr>system_done = False, executor_down = False, debug = is_debug, tasks = [],
        task_objs = [], jobs = [], main = M_Idle, next_wid = 0, env = e, trace = []\<rparr>"

section \<open>The task world execution loop\<close>

text \<open>One statement of \<^verbatim>\<open>_run_world\<close>, run by the thread \<open>a\<close>.\<close>

fun rw_step :: "'e collab \<Rightarrow> actor \<Rightarrow> rw_ctl \<Rightarrow> 'e state \<Rightarrow> rw_result \<times> 'e state" where
  "rw_step c a (RW_Generate t wn ags) s =
     (let w = next_wid s; s1 = emit a (EvGenerateWorld wn ags w) s in
      case generate_world c wn ags w (env s) of
        Inl e \<Rightarrow> (RW_Raise e, s1)
      | Inr e' \<Rightarrow>
          (RW_Next (RW_Test w PNone),
           s1\<lparr>env := e', next_wid := Suc w,
              task_objs := (task_objs s)[t := (task_objs s ! t)\<lparr>world := Some w\<rparr>]\<rparr>))"
| "rw_step c a (RW_Test w r) s =
     (let d = episode_done c w (env s); s1 = emit a (EvEpisodeDone w d) s in
      if d then (RW_Next (RW_Shutdown w r), s1)
      else let s2 = emit a (EvStopFlag (system_done s)) s1 in
        if system_done s then (RW_Next (RW_Shutdown w r), s2)
        else (RW_Next (RW_Parley w r), s2))"
| "rw_step c a (RW_Parley w r) s =
     (case parley c w (env s) of
        Inl e \<Rightarrow> (RW_Raise e, emit a (EvParley w (Inl e)) s)
      | Inr (v, e') \<Rightarrow> (RW_Next (RW_Sleep w v), emit a (EvParley w (Inr v)) (s\<lparr>env := e'\<rparr>)))"
| "rw_step c a (RW_Sleep w r) s = (RW_Next (RW_Test w r), emit a (EvSleep 300) s)"
| "rw_step c a (RW_Shutdown w r) s =
     (let s1 = emit a (EvWorldShutdown w) s in
      case world_shutdown c w (env s) of
        Inl e \<Rightarrow> (RW_Raise e, s1)
      | Inr e' \<Rightarrow> (RW_Next (RW_Return w r), s1\<lparr>env := e'\<rparr>))"
| "rw_step c a (RW_Return w r) s =
     (let d = world_data c w (env s) in
      (RW_Ret r (case d of None \<Rightarrow> [] | Some x \<Rightarrow> x), emit a (EvData w d) s))"

section \<open>The overworld execution loop\<close>

definition dict_get :: "(pyval \<times> pyval) list \<Rightarrow> pyval \<Rightarrow> pyval" where
  "dict_get m k = (case map_of m k of None \<Rightarrow> PNone | Some v \<Rightarrow> v)"

definition read_local :: "string \<Rightarrow> pyval option \<Rightarrow> error + pyval" where
  "read_local name v = (case v of None \<Rightarrow> Inl (UnboundLocalError name) | Some x \<Rightarrow> Inr x)"

text \<open>One statement of \<^verbatim>\<open>_world_function\<close>, run by the thread \<open>a\<close>.\<close>

fun ow_step :: "'e collab \<Rightarrow> actor \<Rightarrow> ow_frame \<Rightarrow> ow_ctl \<Rightarrow> 'e state \<Rightarrow> ow_result \<times> 'e state" where
  "ow_step c a f OW_Generate s =
     (let w = next_wid s;
          s1 = emit a (EvGenerateWorld (overworld_name f) [overworld_agent f] w) s in
      case generate_world c (overworld_name f) [overworld_agent f] w (env s) of
        Inl e \<Rightarrow> (OW_Raise e, s1)
      | Inr e' \<Rightarrow>
          (OW_Next (OW_Test \<lparr>overworld = w, world_type = None\<rparr>),
           s1\<lparr>env := e', next_wid := Suc w\<rparr>))"
| "ow_step c a f (OW_Test l) s =
     (let s1 = emit a (EvStopFlag (system_done s)) s in
      if system_done s then (OW_Next (OW_Return l), s1) else (OW_Next (OW_Parley l), s1))"
| "ow_step c a f (OW_Parley l) s =
     (case parley c (overworld l) (env s) of
        Inl e \<Rightarrow> (OW_Raise e, emit a (EvParley (overworld l) (Inl e)) s)
      | Inr (v, e') \<Rightarrow>
          (let l' = l\<lparr>world_type := Some v\<rparr>;
               s1 = emit a (EvParley (overworld l) (Inr v)) (s\<lparr>env := e'\<rparr>) in
           if v = PNone then (OW_Next (OW_PollSleep l'), s1) else (OW_Next (OW_Lookup l'), s1)))"
| "ow_step c a f (OW_PollSleep l) s = (OW_Next (OW_Test l), emit a (EvSleep 500) s)"
| "ow_step c a f (OW_Lookup l) s =
     (case read_local ''world_type'' (world_type l) of
        Inl e \<Rightarrow> (OW_Raise e, s)
      | Inr wt \<Rightarrow>
          (let onboard_type = dict_get (onboard_map f) wt in
           if truthy onboard_type
           then (OW_Next (OW_Create l onboard_type
                   (''onboard-'' @ agent_id (overworld_agent f) @ ''-'' @ time_now c (env s))), s)
           else (OW_Next (OW_AddPool l), s)))"
| "ow_step c a f (OW_Create l onboard_type onboard_id) s =
     (let s1 = emit a (EvCreateAgent onboard_id (agent_id (overworld_agent f))) s in
      case create_agent c onboard_id (agent_id (overworld_agent f)) (env s) of
        Inl e \<Rightarrow> (OW_Raise e, s1)
      | Inr (ag, e') \<Rightarrow> (OW_Next (OW_SetActive l onboard_type onboard_id ag), s1\<lparr>env := e'\<rparr>))"
| "ow_step c a f (OW_SetActive l onboard_type onboard_id ag) s =
     (let s1 = emit a (EvSetActiveAgent (agent_state f) ag) s in
      case set_active_agent c (agent_state f) ag (env s) of
        Inl e \<Rightarrow> (OW_Raise e, s1)
      | Inr e' \<Rightarrow> (OW_Next (OW_Assign l onboard_type onboard_id ag), s1\<lparr>env := e'\<rparr>))"
| "ow_step c a f (OW_Assign l onboard_type onboard_id ag) s =
     (let s1 = emit a (EvAssignAgentToTask (agent_state f) ag onboard_id) s in
      case assign_agent_to_task c (agent_state f) ag onboard_id (env s) of
        Inl e \<Rightarrow> (OW_Raise e, s1)
      | Inr e' \<Rightarrow>
          (OW_Next (OW_Run l (RW_Generate (ow_task f) onboard_type [ag])), s1\<lparr>env := e'\<rparr>))"
| "ow_step c a f (OW_Run l rw) s =
     (case rw_step c a rw s of
        (RW_Next rw', s') \<Rightarrow> (OW_Next (OW_Run l rw'), s')
      | (RW_Ret r onboard_data, s') \<Rightarrow> (OW_Next (OW_Store l onboard_data), s')
      | (RW_Raise e, s') \<Rightarrow> (OW_Raise e, s'))"
| "ow_step c a f (OW_Store l onboard_data) s =
     (OW_Next (OW_AddPool l),
      (emit a (EvSetOnboardData (agent_state f) onboard_data) s)
        \<lparr>env := set_onboard_data c (agent_state f) onboard_data (env s)\<rparr>)"
| "ow_step c a f (OW_AddPool l) s =
     (case read_local ''world_type'' (world_type l) of
        Inl e \<Rightarrow> (OW_Raise e, s)
      | Inr wt \<Rightarrow>
          (let s1 = emit a (EvAddAgentToPool (agent_state f) wt) s in
           case add_agent_to_pool c (agent_state f) wt (env s) of
             Inl e \<Rightarrow> (OW_Raise e, s1)
           | Inr e' \<Rightarrow> (OW_Next (OW_Log l), s1\<lparr>env := e'\<rparr>)))"
| "ow_step c a f (OW_Log l) s =
     (OW_Next (OW_Settle l), emit a (EvLog ''onboarding/overworld complete'') s)"
| "ow_step c a f (OW_Settle l) s = (OW_Next (OW_WaitTest l), emit a (EvSleep 5000) s)"
| "ow_step c a f (OW_WaitTest l) s =
     (let s1 = emit a (EvGetActiveAgent (agent_state f)) s in
      if get_active_agent c (agent_state f) (env s) \<noteq> Some (overworld_agent f)
      then (OW_Next (OW_WaitSleep l), s1)
      else (OW_Next (OW_ReturnOverworld l), s1))"
| "ow_step c a f (OW_WaitSleep l) s = (OW_Next (OW_WaitTest l), emit a (EvSleep 2000) s)"
| "ow_step c a f (OW_ReturnOverworld l) s =
     (let s1 = emit a (EvReturnOverworld (overworld l)) s in
      case return_overworld c (overworld l) (env s) of
        Inl e \<Rightarrow> (OW_Raise e, s1)
      | Inr e' \<Rightarrow> (OW_Next (OW_Test l), s1\<lparr>env := e'\<rparr>))"
| "ow_step c a f (OW_Return l) s =
     (case read_local ''world_type'' (world_type l) of
        Inl e \<Rightarrow> (OW_Raise e, s)
      | Inr wt \<Rightarrow> (OW_Ret wt, s))"

section \<open>Jobs of the worker pool\<close>

text \<open>
  One statement of the job \<open>j\<close>: the closure \<^verbatim>\<open>_world_fn\<close> (lines 97 to 99) or
  \<^verbatim>\<open>_world_function\<close>.  A value returned or an error raised settles the job's handle.
\<close>

fun job_step :: "'e collab \<Rightarrow> jid \<Rightarrow> job \<Rightarrow> 'e state \<Rightarrow> job \<times> 'e state" where
  "job_step c j (TaskStart n t wn ags) s =
     (TaskRun (RW_Generate t wn ags),
      emit (Worker j) (EvLog (''Starting task '' @ n @ ''...'')) s)"
| "job_step c j (TaskRun rw) s =
     (case rw_step c (Worker j) rw s of
        (RW_Next rw', s') \<Rightarrow> (TaskRun rw', s')
      | (RW_Ret r d, s') \<Rightarrow> (Done (TaskResult r d), s')
      | (RW_Raise e, s') \<Rightarrow> (Failed e, s'))"
| "job_step c j (OverRun f oc) s =
     (case ow_step c (Worker j) f oc s of
        (OW_Next oc', s') \<Rightarrow> (OverRun f oc', s')
      | (OW_Ret r, s') \<Rightarrow> (Done (OverResult r), s')
      | (OW_Raise e, s') \<Rightarrow> (Failed e, s'))"
| "job_step c j (Done r) s = (Done r, s)"
| "job_step c j (Failed e) s = (Failed e, s)"

definition step :: "'e collab \<Rightarrow> jid \<Rightarrow> 'e state \<Rightarrow> 'e state" where
  "step c j s =
     (if j < length (jobs s)
      then (case job_step c j (jobs s ! j) s of (jb, s') \<Rightarrow> s'\<lparr>jobs := (jobs s')[j := jb]\<rparr>)
      else s)"

section \<open>The launch operations and shutdown\<close>

text \<open>
  \<^verbatim>\<open>executor.submit\<close> appends the closure to the pool's jobs and returns its handle; it
  raises once the pool has been shut down.
\<close>

definition submit :: "job \<Rightarrow> 'e state \<Rightarrow> (error + jid) \<times> 'e state" where
  "submit jb s =
     (if executor_down s
      then (Inl (RuntimeError ''cannot schedule new futures after shutdown''), s)
      else (Inr (length (jobs s)), s\<lparr>jobs := jobs s @ [jb]\<rparr>))"

definition set_future :: "tid \<Rightarrow> jid \<Rightarrow> 'e state \<Rightarrow> 'e state" where
  "set_future t fut s = s\<lparr>task_objs := (task_objs s)[t := (task_objs s ! t)\<lparr>future := Some fut\<rparr>]\<rparr>"

definition register :: "string \<Rightarrow> task_state \<Rightarrow> 'e state \<Rightarrow> tid \<times> 'e state" where
  "register n task s =
     (length (task_objs s),
      s\<lparr>task_objs := task_objs s @ [task], tasks := AList.update n (length (task_objs s)) (tasks s)\<rparr>)"

definition launch_task_world ::
  "string \<Rightarrow> pyval \<Rightarrow> agent list \<Rightarrow> 'e state \<Rightarrow> (error + jid) \<times> 'e state" where
  "launch_task_world n wn ags s =
     (case register n (TaskState n wn ags False PNone) s of
        (task, s1) \<Rightarrow>
          (case submit (TaskStart n task wn ags) s1 of
             (Inl e, s2) \<Rightarrow> (Inl e, s2)
           | (Inr fut, s2) \<Rightarrow> (Inr fut, set_future task fut s2)))"

definition launch_overworld ::
  "'e collab \<Rightarrow> string \<Rightarrow> pyval \<Rightarrow> (pyval \<times> pyval) list \<Rightarrow> agent \<Rightarrow> 'e state \<Rightarrow>
     (error + jid) \<times> 'e state" where
  "launch_overworld c n own om oa s =
     (case register n (TaskState n own [oa] True PNone) s of
        (task, s1) \<Rightarrow>
          (let s2 = emit Main (EvGetAgentState (agent_id oa)) s1 in
           case get_agent_state c (agent_id oa) (env s2) of
             Inl e \<Rightarrow> (Inl e, s2)
           | Inr ast \<Rightarrow>
               (case submit
                       (OverRun \<lparr>ow_task = task, overworld_name = own, onboard_map = om,
                                 overworld_agent = oa, agent_state = ast\<rparr> OW_Generate) s2 of
                  (Inl e, s3) \<Rightarrow> (Inl e, s3)
                | (Inr fut, s3) \<Rightarrow> (Inr fut, set_future task fut s3))))"

fun settled :: "job \<Rightarrow> bool" where
  "settled (Done r) = True"
| "settled (Failed e) = True"
| "settled jb = False"

definition drained :: "'e state \<Rightarrow> bool" where
  "drained s = list_all settled (jobs s)"

text \<open>
  One statement of \<^verbatim>\<open>shutdown\<close>, run by the calling thread.  The head of the loop takes
  the next entry and tests its session field (lines 42 and 43); line 44 reads the field again
  and calls the session's release.  \<^verbatim>\<open>executor.shutdown()\<close> makes the pool refuse new jobs
  and then blocks until every job has settled.
\<close>

fun sd_step :: "'e collab \<Rightarrow> sd_ctl \<Rightarrow> 'e state \<Rightarrow> sd_result \<times> 'e state" where
  "sd_step c (SD_Loop []) s = (SD_Next SD_SetFlag, s)"
| "sd_step c (SD_Loop (t # ts)) s =
     (if world (task_objs s ! t) \<noteq> None then (SD_Next (SD_Release t ts), s)
      else (SD_Next (SD_Loop ts), s))"
| "sd_step c (SD_Release t ts) s =
     (case world (task_objs s ! t) of
        None \<Rightarrow> (SD_Raise (AttributeError ''shutdown''), s)
      | Some w \<Rightarrow>
          (let s1 = emit Main (EvWorldShutdown w) s in
           case world_shutdown c w (env s) of
             Inl e \<Rightarrow> (SD_Raise e, s1)
           | Inr e' \<Rightarrow> (SD_Next (SD_Loop ts), s1\<lparr>env := e'\<rparr>)))"
| "sd_step c SD_SetFlag s = (SD_Next SD_Log, s\<lparr>system_done := True\<rparr>)"
| "sd_step c SD_Log s = (SD_Next SD_Executor, debug_log ''Executor shutting down.'' s)"
| "sd_step c SD_Executor s = (SD_Next SD_Wait, s\<lparr>executor_down := True\<rparr>)"
| "sd_step c SD_Wait s = (if drained s then (SD_Next SD_Complete, s) else (SD_Next SD_Wait, s))"
| "sd_step c SD_Complete s = (SD_Ret, debug_log ''Shutdown complete.'' s)"

text \<open>
  The calling thread enters \<^verbatim>\<open>shutdown\<close>, with the entries of the registry in the order of
  the dictionary, or executes the next statement of the call it is in.
\<close>

fun in_shutdown :: "main_ctl \<Rightarrow> bool" where
  "in_shutdown (M_Shutdown ctl) = True"
| "in_shutdown M_Idle = False"
| "in_shutdown M_Returned = False"
| "in_shutdown (M_Raised e) = False"

definition shutdown_step :: "'e collab \<Rightarrow> 'e state \<Rightarrow> 'e state" where
  "shutdown_step c s =
     (case main s of
        M_Shutdown ctl \<Rightarrow>
          (case sd_step c ctl s of
             (SD_Next ctl', s') \<Rightarrow> s'\<lparr>main := M_Shutdown ctl'\<rparr>
           | (SD_Ret, s') \<Rightarrow> s'\<lparr>main := M_Returned\<rparr>
           | (SD_Raise e, s') \<Rightarrow> s'\<lparr>main := M_Raised e\<rparr>)
      | M_Idle \<Rightarrow> s\<lparr>main := M_Shutdown (SD_Loop (map snd (tasks s)))\<rparr>
      | M_Returned \<Rightarrow> s\<lparr>main := M_Shutdown (SD_Loop (map snd (tasks s)))\<rparr>
      | M_Raised e \<Rightarrow> s\<lparr>main := M_Shutdown (SD_Loop (map snd (tasks s)))\<rparr>)"

text \<open>
  The whole of \<^verbatim>\<open>shutdown\<close> when no statement of a worker falls between its own: the
  release pass over the entries (lines 42 to 44), and the call up to the point where
  \<^verbatim>\<open>executor.shutdown()\<close> starts to wait (lines 42 to 48).  Lemma
  \<open>shutdown_uninterrupted\<close> below shows that the statements above, run in a row, compute
  exactly this.
\<close>

fun release_worlds :: "'e collab \<Rightarrow> tid list \<Rightarrow> 'e state \<Rightarrow> (error + unit) \<times> 'e state" where
  "release_worlds c [] s = (Inr (), s)"
| "release_worlds c (t # ts) s =
     (case world (task_objs s ! t) of
        None \<Rightarrow> release_worlds c ts s
      | Some w \<Rightarrow>
          (let s1 = emit Main (EvWorldShutdown w) s in
           case world_shutdown c w (env s) of
             Inl e \<Rightarrow> (Inl e, s1)
           | Inr e' \<Rightarrow> release_worlds c ts (s1\<lparr>env := e'\<rparr>)))"

definition shutdown :: "'e collab \<Rightarrow> 'e state \<Rightarrow> (error + unit) \<times> 'e state" where
  "shutdown c s =
     (case release_worlds c (map snd (tasks s)) s of
        (Inl e, s1) \<Rightarrow> (Inl e, s1)
      | (Inr u, s1) \<Rightarrow>
          (Inr (), (debug_log ''Executor shutting down.'' (s1\<lparr>system_done := True\<rparr>))
                     \<lparr>executor_down := True\<rparr>))"

section \<open>Interleaved executions\<close>

text \<open>
  The threads interleave at the granularity of the statements above.  An execution is a
  list of actions: a launch called by the manager, the next statement of \<^verbatim>\<open>shutdown\<close> on
  the manager's thread (the first \<open>Shutdown\<close> enters the call), the next statement of a pool
  job, and a change of the collaborators' state made by the outside world.  The launch
  operations and \<^verbatim>\<open>shutdown\<close> are called from one thread, so no launch takes place while a
  call of \<^verbatim>\<open>shutdown\<close> is under way.  The pool's capacity restricts which of these
  executions can happen; whatever holds of all of them holds of those.
\<close>

datatype 'e action =
    LaunchTaskWorld string pyval "agent list"
  | LaunchOverworld string pyval "(pyval \<times> pyval) list" agent
  | Shutdown
  | Step jid
  | External "'e \<Rightarrow> 'e"

fun exec :: "'e collab \<Rightarrow> 'e action \<Rightarrow> 'e state \<Rightarrow> 'e state" where
  "exec c (LaunchTaskWorld n wn ags) s =
     (if in_shutdown (main s) then s else snd (launch_task_world n wn ags s))"
| "exec c (LaunchOverworld n own om oa) s =
     (if in_shutdown (main s) then s else snd (launch_overworld c n own om oa s))"
| "exec c Shutdown s = shutdown_step c s"
| "exec c (Step j) s = step c j s"
| "exec c (External g) s = s\<lparr>env := g (env s)\<rparr>"

definition run :: "'e collab \<Rightarrow> 'e action list \<Rightarrow> 'e state \<Rightarrow> 'e state" where
  "run c acts s = foldl (\<lambda>s a. exec c a s) s acts"

definition events_of :: "actor \<Rightarrow> 'e state \<Rightarrow> event list" where
  "events_of a s = map snd (filter (\<lambda>p. fst p = a) (trace s))"

section \<open>A scripted collaborator for concrete runs\<close>

text \<open>
  A fake world module and manager, in the manner of the fake sessions a test would use: every
  world replays the same script of \<^verbatim>\<open>parley\<close> results and reports its episode done once
  the script is used up; a step whose scripted result is \<^verbatim>\<open>crash\<close> raises; releasing a
  world fails when the environment is marked fragile and is recorded otherwise; the manager
  reports the active agent it was last given.
\<close>

record demo_env =
  script :: "pyval list"
  active :: "agent option"
  fragile :: bool
  payload :: "pydict option"
  released :: "wid list"

definition demo :: "demo_env collab" where
  "demo =
     \<lparr>generate_world =
        (\<lambda>wn ags w e. if wn = PStr ''missing'' then Inl (Raised ''unknown world'') else Inr e),
      episode_done = (\<lambda>w e. script e = []),
      parley =
        (\<lambda>w e. case script e of
                 [] \<Rightarrow> Inr (PNone, e)
               | v # vs \<Rightarrow>
                   if v = PStr ''crash'' then Inl (Raised ''step failed'')
                   else Inr (v, e\<lparr>script := vs\<rparr>)),
      world_shutdown =
        (\<lambda>w e. if fragile e then Inl (Raised ''release failed'')
               else Inr (e\<lparr>released := released e @ [w]\<rparr>)),
      world_data = (\<lambda>w e. payload e),
      return_overworld = (\<lambda>w e. Inr e),
      get_agent_state = (\<lambda>i e. Inr 0),
      create_agent = (\<lambda>oid owner e. Inr (Agent 1 oid, e)),
      set_active_agent = (\<lambda>a ag e. Inr (e\<lparr>active := Some ag\<rparr>)),
      assign_agent_to_task = (\<lambda>a ag oid e. Inr e),
      get_active_agent = (\<lambda>a e. active e),
      set_onboard_data = (\<lambda>a d e. e),
      add_agent_to_pool = (\<lambda>a r e. Inr e),
      time_now = (\<lambda>e. ''0'')\<rparr>"

definition demo_env0 :: "pyval list \<Rightarrow> demo_env" where
  "demo_env0 rs = \<lparr>script = rs, active = None, fragile = False, payload = None, released = []\<rparr>"

text \<open>
  A task world launched on the scripted collaborator whose job has logged its start and
  constructed its session: the session is stored on the registry entry and the loop is at its
  head.
\<close>

definition demo_task_running :: "demo_env \<Rightarrow> demo_env state" where
  "demo_task_running e =
     run demo [LaunchTaskWorld ''t'' (PStr ''w'') [], Step 0, Step 0] (init False e)"

definition fragile_env :: demo_env where
  "fragile_env =
     \<lparr>script = [PStr ''a''], active = None, fragile = True, payload = None, released = []\<rparr>"

text \<open>An overworld launched on a fresh runner, after the step that constructs its session.\<close>

definition demo_overworld_started :: "(pyval \<times> pyval) list \<Rightarrow> demo_env \<Rightarrow> demo_env state" where
  "demo_overworld_started om e =
     run demo [LaunchOverworld ''o'' (PStr ''ow'') om (Agent 0 ''u''), Step 0] (init False e)"


section \<open>Registry entries held by jobs\<close>

text \<open>
  A job holds its registry entry by reference.  Here the entries live in \<open>task_objs\<close> and
  a job holds an index; the indices a job still has to use are those of its closure and of
  a pending \<^verbatim>\<open>task.world = world\<close>.  In every state reached from \<open>init\<close> they are in
  range.
\<close>

fun rw_refs :: "rw_ctl \<Rightarrow> tid list" where
  "rw_refs (RW_Generate t wn ags) = [t]"
| "rw_refs (RW_Test w r) = []"
| "rw_refs (RW_Parley w r) = []"
| "rw_refs (RW_Sleep w r) = []"
| "rw_refs (RW_Shutdown w r) = []"
| "rw_refs (RW_Return w r) = []"

fun job_refs :: "job \<Rightarrow> tid list" where
  "job_refs (TaskStart n t wn ags) = [t]"
| "job_refs (TaskRun rw) = rw_refs rw"
| "job_refs (OverRun f (OW_Run l rw)) = ow_task f # rw_refs rw"
| "job_refs (OverRun f oc) = [ow_task f]"
| "job_refs (Done r) = []"
| "job_refs (Failed e) = []"

definition refs_valid :: "'e state \<Rightarrow> bool" where
  "refs_valid s = list_all (\<lambda>jb. list_all (\<lambda>t. t < length (task_objs s)) (job_refs jb)) (jobs s)"

text \<open>Executions made of steps of the first \<open>k\<close> jobs and of changes from outside.\<close>

fun old_action :: "nat \<Rightarrow> 'e action \<Rightarrow> bool" where
  "old_action k (Step j) = (j < k)"
| "old_action k (External g) = True"
| "old_action k (LaunchTaskWorld n wn ags) = False"
| "old_action k (LaunchOverworld n own om oa) = False"
| "old_action k Shutdown = False"


section \<open>What the collaborators are asked to do\<close>

text \<open>
  The change of the collaborators' state that goes with an entry of the trace: the call
  that the entry records, applied to the state, when it does not raise.
\<close>

fun effect :: "'e collab \<Rightarrow> event \<Rightarrow> 'e \<Rightarrow> 'e" where
  "effect c (EvGenerateWorld wn ags w) e =
     (case generate_world c wn ags w e of Inl x \<Rightarrow> e | Inr e' \<Rightarrow> e')"
| "effect c (EvParley w res) e = (case parley c w e of Inl x \<Rightarrow> e | Inr (v, e') \<Rightarrow> e')"
| "effect c (EvWorldShutdown w) e = (case world_shutdown c w e of Inl x \<Rightarrow> e | Inr e' \<Rightarrow> e')"
| "effect c (EvReturnOverworld w) e = (case return_overworld c w e of Inl x \<Rightarrow> e | Inr e' \<Rightarrow> e')"
| "effect c (EvCreateAgent oid owner) e =
     (case create_agent c oid owner e of Inl x \<Rightarrow> e | Inr (ag, e') \<Rightarrow> e')"
| "effect c (EvSetActiveAgent a ag) e =
     (case set_active_agent c a ag e of Inl x \<Rightarrow> e | Inr e' \<Rightarrow> e')"
| "effect c (EvAssignAgentToTask a ag oid) e =
     (case assign_agent_to_task c a ag oid e of Inl x \<Rightarrow> e | Inr e' \<Rightarrow> e')"
| "effect c (EvSetOnboardData a d) e = set_onboard_data c a d e"
| "effect c (EvAddAgentToPool a r) e =
     (case add_agent_to_pool c a r e of Inl x \<Rightarrow> e | Inr e' \<Rightarrow> e')"
| "effect c (EvLog x) e = e"
| "effect c (EvPrint x) e = e"
| "effect c (EvEpisodeDone w d) e = e"
| "effect c (EvStopFlag b) e = e"
| "effect c (EvSleep n) e = e"
| "effect c (EvData w d) e = e"
| "effect c (EvGetAgentState x) e = e"
| "effect c (EvGetActiveAgent a) e = e"

definition replay :: "'e collab \<Rightarrow> (actor \<times> event) list \<Rightarrow> 'e \<Rightarrow> 'e" where
  "replay c evs e = foldl (\<lambda>e p. effect c (snd p) e) e evs"

section \<open>Where a job is in its loops\<close>

text \<open>The number of statements that job \<open>j\<close> executes in an execution.\<close>

fun steps_of :: "jid \<Rightarrow> 'e action list \<Rightarrow> nat" where
  "steps_of j [] = 0"
| "steps_of j (Step i # acts) = (if i = j then 1 else 0) + steps_of j acts"
| "steps_of j (a # acts) = steps_of j acts"

text \<open>
  The control points inside the \<^verbatim>\<open>while\<close> loop of \<^verbatim>\<open>_run_world\<close> (lines 72 to 74): its
  test, the step and the delay; and the session that \<^verbatim>\<open>_run_world\<close> holds once it has
  constructed it.
\<close>

fun rw_looping :: "rw_ctl \<Rightarrow> bool" where
  "rw_looping (RW_Test w r) = True"
| "rw_looping (RW_Parley w r) = True"
| "rw_looping (RW_Sleep w r) = True"
| "rw_looping (RW_Generate t wn ags) = False"
| "rw_looping (RW_Shutdown w r) = False"
| "rw_looping (RW_Return w r) = False"

fun rw_session :: "rw_ctl \<Rightarrow> wid option" where
  "rw_session (RW_Generate t wn ags) = None"
| "rw_session (RW_Test w r) = Some w"
| "rw_session (RW_Parley w r) = Some w"
| "rw_session (RW_Sleep w r) = Some w"
| "rw_session (RW_Shutdown w r) = Some w"
| "rw_session (RW_Return w r) = Some w"



fun failed :: "job \<Rightarrow> bool" where
  "failed (Failed e) = True"
| "failed jb = False"


text \<open>
  A task world launched on the scripted collaborator whose loop has entered its body: the
  session's step is about to be called.
\<close>

definition demo_task_stepping :: "demo_env \<Rightarrow> demo_env state" where
  "demo_task_stepping e = run demo [Step 0] (demo_task_running e)"

section \<open>Sessions held by jobs and by registry entries\<close>






section \<open>Loops and the stop flag\<close>

text \<open>
  A job is running when it is inside the loop of \<^verbatim>\<open>_run_world\<close>, as a task world or as
  the onboarding run of an overworld.
\<close>

fun running :: "job \<Rightarrow> bool" where
  "running (TaskRun rw) = rw_looping rw"
| "running (OverRun f (OW_Run l rw)) = rw_looping rw"
| "running jb = False"

text \<open>
  The head of the supervising loop (line 138) and the delay of a null route that leads back
  to it (lines 140 to 142); the point after the loop (line 161) and the settled jobs.
\<close>

fun supervising :: "job \<Rightarrow> bool" where
  "supervising (OverRun f (OW_Test l)) = True"
| "supervising (OverRun f (OW_PollSleep l)) = True"
| "supervising jb = False"

fun past_supervising :: "job \<Rightarrow> bool" where
  "past_supervising (OverRun f (OW_Return l)) = True"
| "past_supervising (Done r) = True"
| "past_supervising (Failed e) = True"
| "past_supervising jb = False"

text \<open>The poll for the participant's return (lines 158 and 159).\<close>

fun polling :: "ow_ctl \<Rightarrow> bool" where
  "polling (OW_WaitTest l) = True"
| "polling (OW_WaitSleep l) = True"
| "polling oc = False"

fun waiting :: "job \<Rightarrow> bool" where
  "waiting (OverRun f oc) = polling oc"
| "waiting jb = False"

text \<open>
  Throughout an execution, the manager does not report the overworld agent of the frame
  \<open>f\<close> as the active one.
\<close>

fun never_back :: "'e collab \<Rightarrow> ow_frame \<Rightarrow> 'e action list \<Rightarrow> 'e state \<Rightarrow> bool" where
  "never_back c f [] s = (get_active_agent c (agent_state f) (env s) \<noteq> Some (overworld_agent f))"
| "never_back c f (a # acts) s =
     (get_active_agent c (agent_state f) (env s) \<noteq> Some (overworld_agent f)
      \<and> never_back c f acts (exec c a s))"

text \<open>
  With the stop flag set, the number of statements a job has yet to execute before it is out
  of the task world loop for good, and before it is out of the supervising loop (where that
  is bounded).
\<close>

fun rw_rank :: "rw_ctl \<Rightarrow> nat" where
  "rw_rank (RW_Generate t wn ags) = 2"
| "rw_rank (RW_Test w r) = 1"
| "rw_rank (RW_Parley w r) = 3"
| "rw_rank (RW_Sleep w r) = 2"
| "rw_rank (RW_Shutdown w r) = 0"
| "rw_rank (RW_Return w r) = 0"

fun ow_rank :: "ow_ctl \<Rightarrow> nat" where
  "ow_rank (OW_Parley l) = 7"
| "ow_rank (OW_Lookup l) = 6"
| "ow_rank (OW_Create l t i) = 5"
| "ow_rank (OW_SetActive l t i ag) = 4"
| "ow_rank (OW_Assign l t i ag) = 3"
| "ow_rank (OW_Run l rw) = rw_rank rw"
| "ow_rank oc = 0"

fun run_rank :: "job \<Rightarrow> nat" where
  "run_rank (TaskStart n t wn ags) = 3"
| "run_rank (TaskRun rw) = rw_rank rw"
| "run_rank (OverRun f oc) = ow_rank oc"
| "run_rank (Done r) = 0"
| "run_rank (Failed e) = 0"

fun sup_rank :: "job \<Rightarrow> nat option" where
  "sup_rank (OverRun f OW_Generate) = Some 2"
| "sup_rank (OverRun f (OW_Test l)) = Some 1"
| "sup_rank (OverRun f (OW_PollSleep l)) = Some 2"
| "sup_rank (OverRun f (OW_ReturnOverworld l)) = Some 2"
| "sup_rank (OverRun f (OW_Return l)) = Some 0"
| "sup_rank (Done r) = Some 0"
| "sup_rank (Failed e) = Some 0"
| "sup_rank jb = None"

text \<open>
  An overworld that has routed its participant to the task world \<open>r\<close> and polls for their
  return, at the moment \<^verbatim>\<open>shutdown\<close> has set the stop flag.
\<close>

definition demo_overworld_waiting :: "demo_env state" where
  "demo_overworld_waiting =
     run demo [Step 0, Step 0, Step 0, Step 0, Step 0, Step 0,
               Shutdown, Shutdown, Shutdown, Shutdown]
       (demo_overworld_started [] (demo_env0 [PStr ''r'']))"

section \<open>The calls of one job\<close>

text \<open>The calls made by job \<open>j\<close> between the states \<open>s\<close> and \<open>s'\<close>, in order.\<close>

definition since :: "jid \<Rightarrow> 'e state \<Rightarrow> 'e state \<Rightarrow> event list" where
  "since j s s' = map snd (filter (\<lambda>p. fst p = Worker j) (drop (length (trace s)) (trace s')))"

section \<open>The task world loop as the specification describes it\<close>

text \<open>
  The state machine of the specification for the task world execution loop, read as an
  acceptor of the calls of the job.  In \<open>RUNNING\<close> the loop asks the session whether its
  episode is complete and, if not, reads the stop flag; it then calls the step, captures its
  result and waits the short delay.  It moves to \<open>DONE\<close> when the episode is complete or the
  stop flag is observed true; there it releases the session, extracts the optional data
  payload (the empty mapping if there is none) and returns the pair of the last step result
  and the payload.
\<close>

datatype tw_state =
    TW_Running pyval
  | TW_Checked pyval
  | TW_Stepping pyval
  | TW_Delay pyval
  | TW_Releasing pyval
  | TW_Extracting pyval
  | TW_Done pyval pydict

fun tw_next :: "wid \<Rightarrow> tw_state \<Rightarrow> event \<Rightarrow> tw_state option" where
  "tw_next w (TW_Running r) (EvEpisodeDone w' d) =
     (if w' = w then Some (if d then TW_Releasing r else TW_Checked r) else None)"
| "tw_next w (TW_Checked r) (EvStopFlag b) = Some (if b then TW_Releasing r else TW_Stepping r)"
| "tw_next w (TW_Stepping r) (EvParley w' (Inr v)) = (if w' = w then Some (TW_Delay v) else None)"
| "tw_next w (TW_Delay v) (EvSleep n) = (if n = 300 then Some (TW_Running v) else None)"
| "tw_next w (TW_Releasing r) (EvWorldShutdown w') =
     (if w' = w then Some (TW_Extracting r) else None)"
| "tw_next w (TW_Extracting r) (EvData w' d) =
     (if w' = w then Some (TW_Done r (case d of None \<Rightarrow> [] | Some x \<Rightarrow> x)) else None)"
| "tw_next w m ev = None"

fun tw_run :: "wid \<Rightarrow> tw_state \<Rightarrow> event list \<Rightarrow> tw_state option" where
  "tw_run w m [] = Some m"
| "tw_run w m (ev # evs) = (case tw_next w m ev of None \<Rightarrow> None | Some m' \<Rightarrow> tw_run w m' evs)"

text \<open>The state of the specification's machine that a task world job is in.\<close>

fun tw_of :: "job \<Rightarrow> tw_state option" where
  "tw_of (TaskRun (RW_Test w r)) = Some (TW_Running r)"
| "tw_of (TaskRun (RW_Parley w r)) = Some (TW_Stepping r)"
| "tw_of (TaskRun (RW_Sleep w r)) = Some (TW_Delay r)"
| "tw_of (TaskRun (RW_Shutdown w r)) = Some (TW_Releasing r)"
| "tw_of (TaskRun (RW_Return w r)) = Some (TW_Extracting r)"
| "tw_of (Done (TaskResult r d)) = Some (TW_Done r d)"
| "tw_of jb = None"

fun job_session :: "job \<Rightarrow> wid option" where
  "job_session (TaskRun rw) = rw_session rw"
| "job_session jb = None"

section \<open>What a statement leaves alone\<close>

lemmas demo_simps = demo_def demo_env0_def run_def step_def init_def launch_task_world_def
  launch_overworld_def register_def submit_def set_future_def TaskState_def emit_def
  debug_log_def shutdown_def Let_def shutdown_step_def drained_def dict_get_def
  read_local_def

lemma emit_fields [simp]:
  "system_done (emit a ev s) = system_done s"
  "executor_down (emit a ev s) = executor_down s"
  "debug (emit a ev s) = debug s"
  "tasks (emit a ev s) = tasks s"
  "task_objs (emit a ev s) = task_objs s"
  "jobs (emit a ev s) = jobs s"
  "main (emit a ev s) = main s"
  "next_wid (emit a ev s) = next_wid s"
  "env (emit a ev s) = env s"
  "trace (emit a ev s) = trace s @ [(a, ev)]"
  by (simp_all add: emit_def)

lemma debug_log_fields [simp]:
  "system_done (debug_log x s) = system_done s"
  "executor_down (debug_log x s) = executor_down s"
  "debug (debug_log x s) = debug s"
  "tasks (debug_log x s) = tasks s"
  "task_objs (debug_log x s) = task_objs s"
  "jobs (debug_log x s) = jobs s"
  "main (debug_log x s) = main s"
  "next_wid (debug_log x s) = next_wid s"
  "env (debug_log x s) = env s"
  by (simp_all add: debug_log_def)

lemma rw_step_frame:
  assumes "rw_step c a rw s = (res, s')"
  shows "jobs s' = jobs s \<and> system_done s' = system_done s \<and> executor_down s' = executor_down s
    \<and> tasks s' = tasks s \<and> debug s' = debug s \<and> length (task_objs s') = length (task_objs s)
    \<and> main s' = main s"
  using assms by (cases rw) (auto simp: Let_def split: sum.splits if_splits prod.splits)

lemma ow_step_frame:
  assumes "ow_step c a f oc s = (res, s')"
  shows "jobs s' = jobs s \<and> system_done s' = system_done s \<and> executor_down s' = executor_down s
    \<and> tasks s' = tasks s \<and> debug s' = debug s \<and> length (task_objs s') = length (task_objs s)
    \<and> main s' = main s"
proof (cases oc)
  case (OW_Run l rw)
  then show ?thesis using assms rw_step_frame[of c a rw s]
    by (auto split: prod.splits rw_result.splits)
qed (use assms in \<open>auto simp: Let_def split: sum.splits if_splits prod.splits\<close>)

lemma job_step_frame:
  assumes "job_step c j jb s = (jb', s')"
  shows "jobs s' = jobs s \<and> system_done s' = system_done s \<and> executor_down s' = executor_down s
    \<and> tasks s' = tasks s \<and> debug s' = debug s \<and> length (task_objs s') = length (task_objs s)
    \<and> main s' = main s"
proof (cases jb)
  case (TaskRun rw)
  then show ?thesis using assms rw_step_frame[of c "Worker j" rw s]
    by (auto split: prod.splits rw_result.splits)
next
  case (OverRun f oc)
  then show ?thesis using assms ow_step_frame[of c "Worker j" f oc s]
    by (auto split: prod.splits ow_result.splits)
qed (use assms in auto)

lemma step_frame:
  "system_done (step c j s) = system_done s \<and> executor_down (step c j s) = executor_down s
    \<and> tasks (step c j s) = tasks s \<and> debug (step c j s) = debug s
    \<and> length (task_objs (step c j s)) = length (task_objs s)
    \<and> length (jobs (step c j s)) = length (jobs s)
    \<and> main (step c j s) = main s"
proof (cases "j < length (jobs s)")
  case True
  obtain jb' s' where js: "job_step c j (jobs s ! j) s = (jb', s')"
    by (cases "job_step c j (jobs s ! j) s")
  from job_step_frame[OF js] True js show ?thesis by (simp add: step_def)
qed (simp add: step_def)

lemma step_at:
  "j < length (jobs s) \<Longrightarrow> job_step c j (jobs s ! j) s = (jb, s') \<Longrightarrow>
     step c j s = s'\<lparr>jobs := (jobs s)[j := jb]\<rparr>"
  using job_step_frame[of c j "jobs s ! j" s jb s'] by (simp add: step_def)

lemma step_job:
  "j < length (jobs s) \<Longrightarrow> jobs (step c j s) ! j = fst (job_step c j (jobs s ! j) s)"
  using step_at[of j s c "fst (job_step c j (jobs s ! j) s)" "snd (job_step c j (jobs s ! j) s)"]
  by simp

lemma sd_step_frame:
  assumes "sd_step c ctl s = (res, s')"
  shows "jobs s' = jobs s \<and> tasks s' = tasks s \<and> debug s' = debug s \<and> task_objs s' = task_objs s
    \<and> next_wid s' = next_wid s \<and> main s' = main s"
proof (cases ctl)
  case (SD_Loop ts)
  then show ?thesis using assms by (cases ts) (auto split: if_splits)
qed (use assms in \<open>auto simp: Let_def split: sum.splits if_splits option.splits\<close>)

lemma shutdown_step_frame:
  "jobs (shutdown_step c s) = jobs s \<and> tasks (shutdown_step c s) = tasks s
    \<and> debug (shutdown_step c s) = debug s \<and> task_objs (shutdown_step c s) = task_objs s
    \<and> next_wid (shutdown_step c s) = next_wid s"
proof (cases "main s")
  case (M_Shutdown ctl)
  obtain r s' where st: "sd_step c ctl s = (r, s')" by (cases "sd_step c ctl s")
  from sd_step_frame[OF st] M_Shutdown st show ?thesis
    by (cases r) (simp_all add: shutdown_step_def)
qed (simp_all add: shutdown_step_def)

lemma release_worlds_frame:
  "release_worlds c ts s = (res, s') \<Longrightarrow>
     jobs s' = jobs s \<and> system_done s' = system_done s \<and> executor_down s' = executor_down s
     \<and> tasks s' = tasks s \<and> debug s' = debug s \<and> task_objs s' = task_objs s
     \<and> next_wid s' = next_wid s \<and> main s' = main s"
proof (induction ts arbitrary: s)
  case Nil
  then show ?case by simp
next
  case (Cons t ts)
  show ?case
  proof (cases "world (task_objs s ! t)")
    case None
    with Cons show ?thesis by simp
  next
    case (Some w)
    show ?thesis
    proof (cases "world_shutdown c w (env s)")
      case (Inl e)
      with Some Cons.prems show ?thesis by (auto simp: Let_def)
    next
      case (Inr e')
      with Some Cons.prems
      have "release_worlds c ts ((emit Main (EvWorldShutdown w) s)\<lparr>env := e'\<rparr>) = (res, s')"
        by (simp add: Let_def)
      from Cons.IH[OF this] show ?thesis by simp
    qed
  qed
qed

lemma exec_jobs_length: "length (jobs s) \<le> length (jobs (exec c a s))"
  by (cases a)
     (simp_all add: launch_task_world_def register_def submit_def set_future_def
        launch_overworld_def Let_def shutdown_step_frame step_frame split: sum.splits)

lemma exec_other_job:
  assumes "j < length (jobs s)" "a \<noteq> Step j"
  shows "jobs (exec c a s) ! j = jobs s ! j"
proof (cases a)
  case (Step i)
  with assms(2) have ij: "i \<noteq> j" by simp
  show ?thesis
  proof (cases "i < length (jobs s)")
    case True
    obtain jb s1 where js: "job_step c i (jobs s ! i) s = (jb, s1)"
      by (cases "job_step c i (jobs s ! i) s")
    from step_at[OF True js] ij Step show ?thesis by simp
  qed (simp add: Step step_def)
qed (use assms(1) in \<open>simp_all add: launch_task_world_def register_def submit_def set_future_def
      launch_overworld_def Let_def shutdown_step_frame nth_append split: sum.splits\<close>)

lemma run_Cons: "run c (a # acts) s = run c acts (exec c a s)"
  by (simp add: run_def)

lemma run_snoc: "run c (acts @ [a]) s = exec c a (run c acts s)"
  by (simp add: run_def)

lemma run_append: "run c (xs @ ys) s = run c ys (run c xs s)"
  by (simp add: run_def)

lemma run_jobs_length: "length (jobs s) \<le> length (jobs (run c acts s))"
proof (induction acts rule: rev_induct)
  case Nil
  then show ?case by (simp add: run_def)
next
  case (snoc a acts)
  then show ?case using exec_jobs_length[of "run c acts s" c a] by (simp add: run_snoc)
qed

section \<open>The stop flag\<close>

lemma sd_step_flag:
  assumes "sd_step c ctl s = (res, s')"
  shows "system_done s \<longrightarrow> system_done s'"
proof (cases ctl)
  case (SD_Loop ts)
  then show ?thesis using assms by (cases ts) (auto split: if_splits)
qed (use assms in \<open>auto simp: Let_def split: sum.splits if_splits option.splits\<close>)

lemma shutdown_step_mono: "system_done s \<Longrightarrow> system_done (shutdown_step c s)"
proof (cases "main s")
  case (M_Shutdown ctl)
  assume sd: "system_done s"
  obtain r s' where st: "sd_step c ctl s = (r, s')" by (cases "sd_step c ctl s")
  from sd_step_flag[OF st] sd M_Shutdown st show ?thesis
    by (cases r) (simp_all add: shutdown_step_def)
qed (simp_all add: shutdown_step_def)

lemma shutdown_flag:
  "shutdown c s = (Inr u, s1) \<Longrightarrow> system_done s1 \<and> executor_down s1"
  by (auto simp: shutdown_def debug_log_def split: prod.splits sum.splits)

lemma shutdown_error_flag:
  "shutdown c s = (Inl e, s1) \<Longrightarrow>
     release_worlds c (map snd (tasks s)) s = (Inl e, s1)
     \<and> system_done s1 = system_done s \<and> executor_down s1 = executor_down s"
  by (auto simp: shutdown_def debug_log_def split: prod.splits sum.splits dest: release_worlds_frame)

lemma launch_task_world_flag:
  "system_done (snd (launch_task_world n wn ags s)) = system_done s"
  by (simp add: launch_task_world_def register_def submit_def set_future_def)

lemma launch_overworld_flag:
  "system_done (snd (launch_overworld c n own om oa s)) = system_done s"
  by (simp add: launch_overworld_def register_def submit_def set_future_def Let_def split: sum.splits)

lemma exec_flag_change:
  "system_done (exec c a s) \<noteq> system_done s \<Longrightarrow> a = Shutdown"
  by (cases a)
     (auto simp: launch_task_world_flag launch_overworld_flag step_frame split: if_splits)

lemma exec_mono: "system_done s \<Longrightarrow> system_done (exec c a s)"
  using exec_flag_change[of c a s] shutdown_step_mono[of s c] by (cases "a = Shutdown") auto

lemma run_mono: "system_done s \<Longrightarrow> system_done (run c acts s)"
  by (induction acts rule: rev_induct) (simp_all add: run_def exec_mono)

lemma run_take_mono:
  assumes "system_done (run c (take k acts) s)" "k \<le> k'"
  shows "system_done (run c (take k' acts) s)"
proof -
  obtain d where d: "k' = k + d" using assms(2) by (auto simp: le_iff_add)
  have "take k' acts = take k acts @ take d (drop k acts)"
    unfolding d by (rule take_add)
  then show ?thesis using assms(1) by (simp add: run_append run_mono)
qed

lemma run_take_Suc:
  "i < length acts \<Longrightarrow> run c (take (Suc i) acts) s = exec c (acts ! i) (run c (take i acts) s)"
  by (simp add: take_Suc_conv_app_nth run_snoc)

lemma flag_set_once:
  assumes "\<not> system_done s" "system_done (run c acts s)"
  shows "\<exists>!i. i < length acts \<and> \<not> system_done (run c (take i acts) s)
            \<and> system_done (run c (take (Suc i) acts) s) \<and> acts ! i = Shutdown"
proof -
  define P where "P k = system_done (run c (take k acts) s)" for k
  define k where "k = (LEAST k. P k)"
  have Pl: "P (length acts)" using assms(2) by (simp add: P_def)
  then have Pk: "P k" unfolding k_def by (rule LeastI)
  have P0: "\<not> P 0" using assms(1) by (simp add: P_def run_def)
  obtain m where km: "k = Suc m" using Pk P0 by (cases k) auto
  have kle: "k \<le> length acts" unfolding k_def using Pl by (rule Least_le)
  have nPm: "\<not> P m" using not_less_Least[of m P] by (simp add: k_def[symmetric] km)
  have i: "m < length acts" using km kle by simp
  have PS: "P (Suc m)" using Pk km by simp
  have chg: "system_done (exec c (acts ! m) (run c (take m acts) s))
               \<noteq> system_done (run c (take m acts) s)"
    using PS nPm run_take_Suc[OF i, of c s] by (simp add: P_def)
  have sh: "acts ! m = Shutdown" using chg by (rule exec_flag_change)
  have ex: "m < length acts \<and> \<not> system_done (run c (take m acts) s)
            \<and> system_done (run c (take (Suc m) acts) s) \<and> acts ! m = Shutdown"
    using i nPm PS sh by (simp add: P_def)
  have uniq: "i' = m"
    if h: "i' < length acts \<and> \<not> system_done (run c (take i' acts) s)
            \<and> system_done (run c (take (Suc i') acts) s) \<and> acts ! i' = Shutdown" for i'
  proof -
    have "P (Suc i')" using h by (simp add: P_def)
    then have "k \<le> Suc i'" unfolding k_def by (rule Least_le)
    moreover have "i' < k"
    proof (rule ccontr)
      assume "\<not> i' < k"
      then have "k \<le> i'" by simp
      from run_take_mono[OF _ this, of c acts s] Pk h show False by (simp add: P_def)
    qed
    ultimately show ?thesis using km by simp
  qed
  show ?thesis
  proof (rule ex1I[of _ m])
    show "m < length acts \<and> \<not> system_done (run c (take m acts) s)
            \<and> system_done (run c (take (Suc m) acts) s) \<and> acts ! m = Shutdown" by (rule ex)
  next
    fix i' assume "i' < length acts \<and> \<not> system_done (run c (take i' acts) s)
            \<and> system_done (run c (take (Suc i') acts) s) \<and> acts ! i' = Shutdown"
    then show "i' = m" by (rule uniq)
  qed
qed

text \<open>
  Claim C9.  The shared stop flag is false when the runner is constructed; no sequence of
  operations ever takes it from true back to false; a step of an execution loop leaves it as it
  is (the loops only read it); the only operation that changes it is \<^verbatim>\<open>shutdown\<close>; and in
  any execution that starts with the flag false and ends with it true, the flag changes at
  exactly one point, which is a statement of \<^verbatim>\<open>shutdown\<close>.
\<close>

theorem stop_flag_discipline:
  "\<not> system_done (init dbg e)
   \<and> (\<forall>acts s. system_done s \<longrightarrow> system_done (run c acts s))
   \<and> (\<forall>j s. system_done (step c j s) = system_done s)
   \<and> (\<forall>a s. system_done (exec c a s) \<noteq> system_done s \<longrightarrow> a = Shutdown)
   \<and> (\<forall>acts s. \<not> system_done s \<and> system_done (run c acts s) \<longrightarrow>
         (\<exists>!i. i < length acts \<and> \<not> system_done (run c (take i acts) s)
            \<and> system_done (run c (take (Suc i) acts) s) \<and> acts ! i = Shutdown))"
proof -
  have p1: "\<not> system_done (init dbg e)" by (simp add: init_def debug_log_def)
  have p2: "\<forall>acts s. system_done s \<longrightarrow> system_done (run c acts s)"
    by (simp add: run_mono)
  have p3: "\<forall>j s. system_done (step c j s) = system_done s"
    by (simp add: step_frame)
  have p4: "\<forall>a s. system_done (exec c a s) \<noteq> system_done s \<longrightarrow> a = Shutdown"
    by (intro allI impI) (rule exec_flag_change)
  have p5: "\<forall>acts s. \<not> system_done s \<and> system_done (run c acts s) \<longrightarrow>
         (\<exists>!i. i < length acts \<and> \<not> system_done (run c (take i acts) s)
            \<and> system_done (run c (take (Suc i) acts) s) \<and> acts ! i = Shutdown)"
  proof (intro allI impI)
    fix acts s assume h: "\<not> system_done s \<and> system_done (run c acts s)"
    from h have a: "\<not> system_done s" and b: "system_done (run c acts s)" by simp_all
    from a b show "\<exists>!i. i < length acts \<and> \<not> system_done (run c (take i acts) s)
            \<and> system_done (run c (take (Suc i) acts) s) \<and> acts ! i = Shutdown"
      by (rule flag_set_once)
  qed
  from p1 p2 p3 p4 p5 show ?thesis by (intro conjI)
qed

theorem stop_flag_discipline_witness:
  "system_done (run demo [Step 0, Step 0]
      (run demo [Shutdown, Shutdown, Shutdown, Shutdown, Shutdown]
         (demo_task_running (demo_env0 [PStr ''a'']))))
   \<and> (\<exists>!i. i < length ([Shutdown, Shutdown, Step 0, Shutdown, Shutdown, Shutdown, Step 0]
                         :: demo_env action list)
        \<and> \<not> system_done (run demo
              (take i [Shutdown, Shutdown, Step 0, Shutdown, Shutdown, Shutdown, Step 0])
              (demo_task_running (demo_env0 [PStr ''a''])))
        \<and> system_done (run demo
              (take (Suc i) [Shutdown, Shutdown, Step 0, Shutdown, Shutdown, Shutdown, Step 0])
              (demo_task_running (demo_env0 [PStr ''a''])))
        \<and> [Shutdown, Shutdown, Step 0, Shutdown, Shutdown, Shutdown, Step 0] ! i
            = (Shutdown :: demo_env action))"
proof -
  let ?s = "demo_task_running (demo_env0 [PStr ''a''])"
  let ?acts = "[Shutdown, Shutdown, Step 0, Shutdown, Shutdown, Shutdown, Step 0] :: demo_env action list"
  have h1: "system_done (run demo [Shutdown, Shutdown, Shutdown, Shutdown, Shutdown] ?s)"
    by (simp add: demo_task_running_def demo_simps)
  have h2: "\<not> system_done ?s \<and> system_done (run demo ?acts ?s)"
    by (simp add: demo_task_running_def demo_simps)
  note th = stop_flag_discipline[of False "demo_env0 []" demo]
  note mono = th[THEN conjunct2, THEN conjunct1, THEN spec, THEN spec, THEN mp]
  note once = th[THEN conjunct2, THEN conjunct2, THEN conjunct2, THEN conjunct2,
      THEN spec, THEN spec, THEN mp]
  have c1: "system_done (run demo [Step 0, Step 0]
      (run demo [Shutdown, Shutdown, Shutdown, Shutdown, Shutdown] ?s))"
    by (rule mono[OF h1])
  have c2: "\<exists>!i. i < length ?acts
        \<and> \<not> system_done (run demo (take i ?acts) ?s)
        \<and> system_done (run demo (take (Suc i) ?acts) ?s)
        \<and> ?acts ! i = (Shutdown :: demo_env action)"
    by (rule once[OF h2])
  show ?thesis using c1 c2 by (rule conjI)
qed

text \<open>
  Claim C4 at its failing input: an overworld is launched and constructs its session,
  \<^verbatim>\<open>shutdown\<close> sets the stop flag before the first supervisory step, and the loop is
  never entered.  \<^verbatim>\<open>return world_type\<close> then reads a local that was never bound: the job
  fails with \<^verbatim>\<open>UnboundLocalError\<close> instead of returning a route.
\<close>

theorem overworld_stopped_before_first_step:
  "jobs (run demo [LaunchOverworld ''o'' (PStr ''ow'') [] (Agent 0 ''u''), Step 0,
                   Shutdown, Shutdown, Shutdown, Shutdown, Step 0, Step 0]
          (init False (demo_env0 []))) ! 0 = Failed (UnboundLocalError ''world_type'')
   \<and> system_done (run demo [LaunchOverworld ''o'' (PStr ''ow'') [] (Agent 0 ''u''), Step 0,
                   Shutdown, Shutdown, Shutdown, Shutdown]
          (init False (demo_env0 [])))"
  by (simp add: demo_simps)


section \<open>Shutdown\<close>

lemma release_worlds_trace_mono:
  "release_worlds c ts s = (res, s') \<Longrightarrow> \<exists>evs. trace s' = trace s @ evs"
proof (induction ts arbitrary: s)
  case Nil
  then show ?case by simp
next
  case (Cons t ts)
  show ?case
  proof (cases "world (task_objs s ! t)")
    case None
    with Cons show ?thesis by simp
  next
    case (Some w)
    show ?thesis
    proof (cases "world_shutdown c w (env s)")
      case (Inl e)
      with Some Cons.prems show ?thesis by (auto simp: Let_def)
    next
      case (Inr e')
      with Some Cons.prems
      have "release_worlds c ts ((emit Main (EvWorldShutdown w) s)\<lparr>env := e'\<rparr>) = (res, s')"
        by (simp add: Let_def)
      from Cons.IH[OF this] show ?thesis by auto
    qed
  qed
qed

lemma release_worlds_error:
  "release_worlds c ts s = (Inl e, s') \<Longrightarrow>
     \<exists>w. trace s' \<noteq> [] \<and> last (trace s') = (Main, EvWorldShutdown w)
        \<and> world_shutdown c w (env s') = Inl e"
proof (induction ts arbitrary: s)
  case Nil
  then show ?case by simp
next
  case (Cons t ts)
  show ?case
  proof (cases "world (task_objs s ! t)")
    case None
    with Cons show ?thesis by simp
  next
    case (Some w)
    show ?thesis
    proof (cases "world_shutdown c w (env s)")
      case (Inl e0)
      with Some Cons.prems show ?thesis by (auto simp: Let_def)
    next
      case (Inr e')
      with Some Cons.prems
      have "release_worlds c ts ((emit Main (EvWorldShutdown w) s)\<lparr>env := e'\<rparr>) = (Inl e, s')"
        by (simp add: Let_def)
      from Cons.IH[OF this] show ?thesis .
    qed
  qed
qed

lemma release_worlds_emits:
  "release_worlds c ts s = (Inr u, s') \<Longrightarrow> t \<in> set ts \<Longrightarrow> world (task_objs s ! t) = Some w \<Longrightarrow>
     (Main, EvWorldShutdown w) \<in> set (drop (length (trace s)) (trace s'))"
proof (induction ts arbitrary: s)
  case Nil
  then show ?case by simp
next
  case (Cons t0 ts)
  show ?case
  proof (cases "world (task_objs s ! t0)")
    case None
    with Cons.prems have r: "release_worlds c ts s = (Inr u, s')" and "t \<in> set ts" by auto
    with Cons.IH[OF r] Cons.prems show ?thesis by simp
  next
    case (Some w0)
    show ?thesis
    proof (cases "world_shutdown c w0 (env s)")
      case (Inl e0)
      with Some Cons.prems show ?thesis by (auto simp: Let_def)
    next
      case (Inr e')
      let ?s1 = "(emit Main (EvWorldShutdown w0) s)\<lparr>env := e'\<rparr>"
      from Inr Some Cons.prems
      have r: "release_worlds c ts ?s1 = (Inr u, s')" by (simp add: Let_def)
      from release_worlds_trace_mono[OF r] obtain evs
        where evs: "trace s' = trace s @ (Main, EvWorldShutdown w0) # evs" by auto
      show ?thesis
      proof (cases "t = t0")
        case True
        with Some Cons.prems have "w = w0" by simp
        with evs show ?thesis by simp
      next
        case False
        with Cons.prems have "t \<in> set ts" by simp
        from Cons.IH[OF r this] Cons.prems(3)
        have "(Main, EvWorldShutdown w) \<in> set (drop (Suc (length (trace s))) (trace s'))" by simp
        with evs show ?thesis by simp
      qed
    qed
  qed
qed

lemma release_worlds_append:
  "release_worlds c (xs @ ys) s =
     (case release_worlds c xs s of
        (Inl e, s1) \<Rightarrow> (Inl e, s1)
      | (Inr u, s1) \<Rightarrow> release_worlds c ys s1)"
proof (induction xs arbitrary: s)
  case Nil
  then show ?case by simp
next
  case (Cons t xs)
  show ?case
  proof (cases "world (task_objs s ! t)")
    case None
    with Cons show ?thesis by simp
  next
    case (Some w)
    with Cons show ?thesis by (cases "world_shutdown c w (env s)") (simp_all add: Let_def)
  qed
qed

lemma release_worlds_all_succeed:
  "release_worlds c ts s = (Inr u, s1) \<Longrightarrow> t \<in> set ts \<Longrightarrow> world (task_objs s ! t) = Some w \<Longrightarrow>
     \<exists>e e'. world_shutdown c w e = Inr e'"
proof (induction ts arbitrary: s)
  case Nil
  then show ?case by simp
next
  case (Cons t0 ts)
  show ?case
  proof (cases "world (task_objs s ! t0)")
    case None
    with Cons.prems have r: "release_worlds c ts s = (Inr u, s1)" and "t \<noteq> t0" by auto
    with Cons.prems have "t \<in> set ts" by simp
    from Cons.IH[OF r this Cons.prems(3)] show ?thesis .
  next
    case (Some w0)
    show ?thesis
    proof (cases "world_shutdown c w0 (env s)")
      case (Inl e)
      with Some Cons.prems(1) show ?thesis by (simp add: Let_def)
    next
      case (Inr e')
      with Some Cons.prems(1)
      have r: "release_worlds c ts ((emit Main (EvWorldShutdown w0) s)\<lparr>env := e'\<rparr>) = (Inr u, s1)"
        by (simp add: Let_def)
      show ?thesis
      proof (cases "t = t0")
        case True
        with Some Cons.prems(3) have "w = w0" by simp
        with Inr show ?thesis by blast
      next
        case False
        with Cons.prems(2) have "t \<in> set ts" by simp
        from Cons.IH[OF r this] Cons.prems(3) show ?thesis by simp
      qed
    qed
  qed
qed

lemma shutdown_frame:
  "shutdown c s = (r, s1) \<Longrightarrow>
     jobs s1 = jobs s \<and> tasks s1 = tasks s \<and> task_objs s1 = task_objs s
     \<and> (\<exists>evs. trace s1 = trace s @ evs)"
proof -
  assume sh: "shutdown c s = (r, s1)"
  obtain r0 s0 where s0: "release_worlds c (map snd (tasks s)) s = (r0, s0)"
    by (cases "release_worlds c (map snd (tasks s)) s")
  from release_worlds_frame[OF s0] release_worlds_trace_mono[OF s0] sh s0
  show ?thesis
    by (cases r0) (auto simp: shutdown_def debug_log_def split: if_splits)
qed

text \<open>The statements of \<^verbatim>\<open>shutdown\<close>, run in a row, compute the call as a whole.\<close>

lemma release_worlds_main:
  "release_worlds c ts (s\<lparr>main := m\<rparr>) =
     (fst (release_worlds c ts s), (snd (release_worlds c ts s))\<lparr>main := m\<rparr>)"
proof (induction ts arbitrary: s)
  case Nil
  then show ?case by simp
next
  case (Cons t ts)
  show ?case
  proof (cases "world (task_objs s ! t)")
    case None
    with Cons show ?thesis by simp
  next
    case (Some w)
    show ?thesis
    proof (cases "world_shutdown c w (env s)")
      case (Inl e)
      with Some show ?thesis by (simp add: Let_def emit_def)
    next
      case (Inr e')
      let ?s2 = "(emit Main (EvWorldShutdown w) s)\<lparr>env := e'\<rparr>"
      have eq: "(emit Main (EvWorldShutdown w) (s\<lparr>main := m\<rparr>))\<lparr>env := e'\<rparr> = ?s2\<lparr>main := m\<rparr>"
        by (simp add: emit_def)
      have "release_worlds c (t # ts) (s\<lparr>main := m\<rparr>) =
              release_worlds c ts ((emit Main (EvWorldShutdown w) (s\<lparr>main := m\<rparr>))\<lparr>env := e'\<rparr>)"
        using Some Inr by (simp add: Let_def)
      also have "\<dots> = release_worlds c ts (?s2\<lparr>main := m\<rparr>)" by (simp only: eq)
      also have "\<dots> = (fst (release_worlds c ts ?s2), (snd (release_worlds c ts ?s2))\<lparr>main := m\<rparr>)"
        by (rule Cons.IH)
      also have "\<dots> = (fst (release_worlds c (t # ts) s), (snd (release_worlds c (t # ts) s))\<lparr>main := m\<rparr>)"
        using Some Inr by (simp add: Let_def)
      finally show ?thesis .
    qed
  qed
qed

lemma run_replicate_Suc:
  "run c (replicate (Suc k) a) s = run c (replicate k a) (exec c a s)"
  by (simp add: run_def)

lemma release_pass_steps:
  "main s = M_Shutdown (SD_Loop ts) \<Longrightarrow>
     \<exists>k. run c (replicate k Shutdown) s =
       (snd (release_worlds c ts s))
         \<lparr>main := (case fst (release_worlds c ts s) of
                     Inl e \<Rightarrow> M_Raised e | Inr u \<Rightarrow> M_Shutdown SD_SetFlag)\<rparr>"
proof (induction ts arbitrary: s)
  case Nil
  then have "run c (replicate 1 Shutdown) s = s\<lparr>main := M_Shutdown SD_SetFlag\<rparr>"
    by (simp add: run_def shutdown_step_def)
  then show ?case by (intro exI[of _ 1]) simp
next
  case (Cons t ts)
  show ?case
  proof (cases "world (task_objs s ! t)")
    case None
    let ?s' = "s\<lparr>main := M_Shutdown (SD_Loop ts)\<rparr>"
    have e1: "exec c Shutdown s = ?s'" using Cons.prems None by (simp add: shutdown_step_def)
    have "main ?s' = M_Shutdown (SD_Loop ts)" by simp
    from Cons.IH[OF this] obtain k where
      k: "run c (replicate k Shutdown) ?s' =
       (snd (release_worlds c ts ?s'))
         \<lparr>main := (case fst (release_worlds c ts ?s') of
                     Inl e \<Rightarrow> M_Raised e | Inr u \<Rightarrow> M_Shutdown SD_SetFlag)\<rparr>" by blast
    have "run c (replicate (Suc k) Shutdown) s =
       (snd (release_worlds c (t # ts) s))
         \<lparr>main := (case fst (release_worlds c (t # ts) s) of
                     Inl e \<Rightarrow> M_Raised e | Inr u \<Rightarrow> M_Shutdown SD_SetFlag)\<rparr>"
      unfolding run_replicate_Suc e1 k using None by (simp add: release_worlds_main)
    then show ?thesis by blast
  next
    case (Some w)
    let ?s' = "s\<lparr>main := M_Shutdown (SD_Release t ts)\<rparr>"
    have e1: "exec c Shutdown s = ?s'" using Cons.prems Some by (simp add: shutdown_step_def)
    show ?thesis
    proof (cases "world_shutdown c w (env s)")
      case (Inl e)
      have e2: "exec c Shutdown ?s' = (emit Main (EvWorldShutdown w) s)\<lparr>main := M_Raised e\<rparr>"
        using Some Inl by (simp add: shutdown_step_def Let_def emit_def)
      have "run c (replicate (Suc (Suc 0)) Shutdown) s =
         (snd (release_worlds c (t # ts) s))
           \<lparr>main := (case fst (release_worlds c (t # ts) s) of
                       Inl e \<Rightarrow> M_Raised e | Inr u \<Rightarrow> M_Shutdown SD_SetFlag)\<rparr>"
        unfolding run_replicate_Suc e1 e2 using Some Inl by (simp add: run_def Let_def)
      then show ?thesis by blast
    next
      case (Inr e')
      let ?s2 = "(emit Main (EvWorldShutdown w) s)\<lparr>env := e'\<rparr>"
      let ?s'' = "?s2\<lparr>main := M_Shutdown (SD_Loop ts)\<rparr>"
      have e2: "exec c Shutdown ?s' = ?s''"
        using Some Inr by (simp add: shutdown_step_def Let_def emit_def)
      have "main ?s'' = M_Shutdown (SD_Loop ts)" by simp
      from Cons.IH[OF this] obtain k where
        k: "run c (replicate k Shutdown) ?s'' =
         (snd (release_worlds c ts ?s''))
           \<lparr>main := (case fst (release_worlds c ts ?s'') of
                       Inl e \<Rightarrow> M_Raised e | Inr u \<Rightarrow> M_Shutdown SD_SetFlag)\<rparr>" by blast
      have rw: "release_worlds c (t # ts) s = release_worlds c ts ?s2"
        using Some Inr by (simp add: Let_def)
      have "run c (replicate (Suc (Suc k)) Shutdown) s =
         (snd (release_worlds c (t # ts) s))
           \<lparr>main := (case fst (release_worlds c (t # ts) s) of
                       Inl e \<Rightarrow> M_Raised e | Inr u \<Rightarrow> M_Shutdown SD_SetFlag)\<rparr>"
        unfolding run_replicate_Suc e1 e2 k rw by (simp add: release_worlds_main)
      then show ?thesis by blast
    qed
  qed
qed

lemma shutdown_uninterrupted:
  assumes "\<not> in_shutdown (main s)"
  shows "\<exists>k. run c (replicate k Shutdown) s =
       (snd (shutdown c s))
         \<lparr>main := (case fst (shutdown c s) of
                     Inl e \<Rightarrow> M_Raised e | Inr u \<Rightarrow> M_Shutdown SD_Wait)\<rparr>"
proof -
  let ?ts = "map snd (tasks s)"
  let ?s0 = "s\<lparr>main := M_Shutdown (SD_Loop ?ts)\<rparr>"
  have e0: "exec c Shutdown s = ?s0" using assms by (cases "main s") (simp_all add: shutdown_step_def)
  obtain r s1 where rs: "release_worlds c ?ts s = (r, s1)" by (cases "release_worlds c ?ts s")
  have "main ?s0 = M_Shutdown (SD_Loop ?ts)" by simp
  from release_pass_steps[OF this, of c] obtain k where
    k: "run c (replicate k Shutdown) ?s0 =
       s1\<lparr>main := (case r of Inl e \<Rightarrow> M_Raised e | Inr u \<Rightarrow> M_Shutdown SD_SetFlag)\<rparr>"
    by (auto simp: release_worlds_main rs)
  have k1: "run c (replicate (Suc k) Shutdown) s =
       s1\<lparr>main := (case r of Inl e \<Rightarrow> M_Raised e | Inr u \<Rightarrow> M_Shutdown SD_SetFlag)\<rparr>"
    unfolding run_replicate_Suc e0 k ..
  show ?thesis
  proof (cases r)
    case (Inl e)
    with k1 rs have "run c (replicate (Suc k) Shutdown) s =
       (snd (shutdown c s))
         \<lparr>main := (case fst (shutdown c s) of
                     Inl e \<Rightarrow> M_Raised e | Inr u \<Rightarrow> M_Shutdown SD_Wait)\<rparr>"
      by (simp add: shutdown_def)
    then show ?thesis by blast
  next
    case (Inr u)
    have "run c (replicate (Suc k + 3) (Shutdown :: 'a action)) s =
        run c (replicate 3 Shutdown) (run c (replicate (Suc k) Shutdown) s)"
      by (simp only: replicate_add run_append)
    also have "\<dots> = run c [Shutdown, Shutdown, Shutdown] (s1\<lparr>main := M_Shutdown SD_SetFlag\<rparr>)"
      using k1 Inr by (simp add: numeral_3_eq_3)
    also have "\<dots> = (snd (shutdown c s))
         \<lparr>main := (case fst (shutdown c s) of
                     Inl e \<Rightarrow> M_Raised e | Inr u \<Rightarrow> M_Shutdown SD_Wait)\<rparr>"
      using rs Inr by (simp add: run_def shutdown_step_def shutdown_def debug_log_def emit_def)
    finally show ?thesis by blast
  qed
qed


section \<open>The trace records what was done\<close>

lemma replay_Nil [simp]: "replay c [] e = e"
  by (simp add: replay_def)

lemma replay_Cons [simp]: "replay c (p # evs) e = replay c evs (effect c (snd p) e)"
  by (simp add: replay_def)

lemma replay_append: "replay c (xs @ ys) e = replay c ys (replay c xs e)"
  by (simp add: replay_def)

lemma rw_step_faithful:
  assumes "rw_step c a rw s = (res, s')"
  shows "\<exists>evs. trace s' = trace s @ evs \<and> env s' = replay c evs (env s)"
  using assms
  by (cases rw) (auto simp: Let_def split: sum.splits if_splits prod.splits)

lemma ow_step_faithful:
  assumes "ow_step c a f oc s = (res, s')"
  shows "\<exists>evs. trace s' = trace s @ evs \<and> env s' = replay c evs (env s)"
proof (cases oc)
  case (OW_Run l rw)
  then show ?thesis using assms rw_step_faithful[of c a rw s]
    by (auto split: prod.splits rw_result.splits)
qed (use assms in \<open>auto simp: Let_def split: sum.splits if_splits prod.splits\<close>)

lemma job_step_faithful:
  assumes "job_step c j jb s = (jb', s')"
  shows "\<exists>evs. trace s' = trace s @ evs \<and> env s' = replay c evs (env s)"
proof (cases jb)
  case (TaskRun rw)
  then show ?thesis using assms rw_step_faithful[of c "Worker j" rw s]
    by (auto split: prod.splits rw_result.splits)
next
  case (OverRun f oc)
  then show ?thesis using assms ow_step_faithful[of c "Worker j" f oc s]
    by (auto split: prod.splits ow_result.splits)
qed (use assms in auto)

lemma step_faithful:
  "\<exists>evs. trace (step c j s) = trace s @ evs \<and> env (step c j s) = replay c evs (env s)"
proof (cases "j < length (jobs s)")
  case True
  obtain jb' s' where js: "job_step c j (jobs s ! j) s = (jb', s')"
    by (cases "job_step c j (jobs s ! j) s")
  from job_step_faithful[OF js] step_at[OF True js] show ?thesis by simp
qed (simp add: step_def)

lemma sd_step_faithful:
  assumes "sd_step c ctl s = (res, s')"
  shows "\<exists>evs. trace s' = trace s @ evs \<and> env s' = replay c evs (env s)"
proof (cases ctl)
  case (SD_Loop ts)
  then show ?thesis using assms by (cases ts) (auto split: if_splits)
qed (use assms in \<open>auto simp: Let_def debug_log_def split: sum.splits if_splits option.splits\<close>)

lemma shutdown_step_faithful:
  "\<exists>evs. trace (shutdown_step c s) = trace s @ evs \<and> env (shutdown_step c s) = replay c evs (env s)"
proof (cases "main s")
  case (M_Shutdown ctl)
  obtain r s' where st: "sd_step c ctl s = (r, s')" by (cases "sd_step c ctl s")
  from sd_step_faithful[OF st] M_Shutdown st show ?thesis
    by (cases r) (simp_all add: shutdown_step_def)
qed (simp_all add: shutdown_step_def)

lemma exec_trace: "\<exists>evs. trace (exec c a s) = trace s @ evs"
proof (cases a)
  case Shutdown
  then show ?thesis using shutdown_step_faithful[of c s] by auto
next
  case (Step j)
  then show ?thesis using step_faithful[of c j s] by auto
qed (simp_all add: launch_task_world_def register_def submit_def set_future_def
      launch_overworld_def Let_def split: sum.splits)


lemma run_trace: "\<exists>evs. trace (run c acts s) = trace s @ evs"
proof (induction acts rule: rev_induct)
  case Nil
  then show ?case by (simp add: run_def)
next
  case (snoc a acts)
  then obtain evs where "trace (run c acts s) = trace s @ evs" by blast
  moreover obtain evs' where "trace (exec c a (run c acts s)) = trace (run c acts s) @ evs'"
    using exec_trace[of c a "run c acts s"] by blast
  ultimately show ?case by (simp add: run_snoc)
qed

lemma release_worlds_faithful:
  "release_worlds c ts s = (res, s') \<Longrightarrow>
     \<exists>evs. trace s' = trace s @ evs \<and> env s' = replay c evs (env s)"
proof (induction ts arbitrary: s)
  case Nil
  then show ?case by simp
next
  case (Cons t ts)
  show ?case
  proof (cases "world (task_objs s ! t)")
    case None
    with Cons show ?thesis by simp
  next
    case (Some w)
    show ?thesis
    proof (cases "world_shutdown c w (env s)")
      case (Inl e)
      with Some Cons.prems show ?thesis by (auto simp: Let_def)
    next
      case (Inr e')
      let ?s2 = "(emit Main (EvWorldShutdown w) s)\<lparr>env := e'\<rparr>"
      from Some Inr Cons.prems have "release_worlds c ts ?s2 = (res, s')" by (simp add: Let_def)
      from Cons.IH[OF this] obtain evs
        where "trace s' = trace ?s2 @ evs" "env s' = replay c evs (env ?s2)" by blast
      then have "trace s' = trace s @ ((Main, EvWorldShutdown w) # evs)
          \<and> env s' = replay c ((Main, EvWorldShutdown w) # evs) (env s)"
        using Inr by simp
      then show ?thesis by blast
    qed
  qed
qed

lemma shutdown_faithful:
  assumes "shutdown c s = (res, s')"
  shows "\<exists>evs. trace s' = trace s @ evs \<and> env s' = replay c evs (env s)"
proof -
  obtain r0 s0 where s0: "release_worlds c (map snd (tasks s)) s = (r0, s0)"
    by (cases "release_worlds c (map snd (tasks s)) s")
  from release_worlds_faithful[OF s0] obtain evs
    where evs: "trace s0 = trace s @ evs" "env s0 = replay c evs (env s)" by blast
  show ?thesis
  proof (cases r0)
    case (Inl e)
    with s0 assms evs show ?thesis by (auto simp: shutdown_def)
  next
    case (Inr u)
    with s0 assms have s': "s' = (debug_log ''Executor shutting down.'' (s0\<lparr>system_done := True\<rparr>))\<lparr>executor_down := True\<rparr>"
      by (auto simp: shutdown_def)
    show ?thesis
    proof (cases "debug s0")
      case True
      then have "trace s' = trace s @ (evs @ [(Main, EvPrint ''Executor shutting down.'')])
        \<and> env s' = replay c (evs @ [(Main, EvPrint ''Executor shutting down.'')]) (env s)"
        using evs by (simp add: s' debug_log_def replay_append)
      then show ?thesis by blast
    next
      case False
      then have "trace s' = trace s @ evs \<and> env s' = replay c evs (env s)"
        using evs by (simp add: s' debug_log_def)
      then show ?thesis by blast
    qed
  qed
qed

section \<open>Errors of the release pass\<close>

text \<open>
  Claim C2, as stated, fails: \<^verbatim>\<open>shutdown\<close> has no handler around the release pass.  With
  one running task world whose release raises, \<^verbatim>\<open>shutdown\<close> raises that error and neither
  sets the stop flag nor shuts the pool down: so for the call as a whole, and so for its
  statements run one by one, the third of which raises.
\<close>

theorem shutdown_release_error_counterexample:
  "fst (shutdown demo (demo_task_running fragile_env)) = Inl (Raised ''release failed'')
   \<and> \<not> system_done (snd (shutdown demo (demo_task_running fragile_env)))
   \<and> \<not> executor_down (snd (shutdown demo (demo_task_running fragile_env)))
   \<and> main (run demo [Shutdown, Shutdown, Shutdown] (demo_task_running fragile_env))
       = M_Raised (Raised ''release failed'')
   \<and> \<not> system_done (run demo [Shutdown, Shutdown, Shutdown] (demo_task_running fragile_env))
   \<and> \<not> executor_down (run demo [Shutdown, Shutdown, Shutdown] (demo_task_running fragile_env))"
  by (simp add: demo_task_running_def fragile_env_def demo_simps)

text \<open>
  Claim C2, amended.  If a session's release raises during the release pass, the error
  propagates out of \<^verbatim>\<open>shutdown\<close>: the failing release is the last thing \<^verbatim>\<open>shutdown\<close> did,
  the stop flag and the pool are left as they were.  If no release raises, every session
  stored on a registry entry has been asked to release, the stop flag is set and the pool is
  shut down.  In detail: the first release of the pass that raises ends the call with its
  error, right after the releases of the entries before it; a stored session whose release
  always raises makes \<^verbatim>\<open>shutdown\<close> raise; the statement of line 44 either raises the
  error of the release, ending the call, or applies the release and goes on with the next
  entry; the changes to the collaborators are those of the releases recorded; and the
  statements of \<^verbatim>\<open>shutdown\<close> run in a row reach the outcome of the call as a whole.
\<close>

theorem shutdown_release_outcome:
  "(\<forall>e s1. shutdown c s = (Inl e, s1) \<longrightarrow>
      system_done s1 = system_done s \<and> executor_down s1 = executor_down s
      \<and> (\<exists>w. trace s1 \<noteq> [] \<and> last (trace s1) = (Main, EvWorldShutdown w) \<and> world_shutdown c w (env s1) = Inl e))
   \<and> (\<forall>s1. shutdown c s = (Inr (), s1) \<longrightarrow>
      system_done s1 \<and> executor_down s1
      \<and> (\<forall>n t w. (n, t) \<in> set (tasks s) \<and> world (task_objs s ! t) = Some w \<longrightarrow>
            (Main, EvWorldShutdown w) \<in> set (drop (length (trace s)) (trace s1))))
   \<and> (\<forall>ts1 t ts2 s0 w e.
        map snd (tasks s) = ts1 @ t # ts2 \<and> release_worlds c ts1 s = (Inr (), s0)
        \<and> world (task_objs s ! t) = Some w \<and> world_shutdown c w (env s0) = Inl e \<longrightarrow>
        shutdown c s = (Inl e, emit Main (EvWorldShutdown w) s0))
   \<and> (\<forall>n t w. (n, t) \<in> set (tasks s) \<and> world (task_objs s ! t) = Some w
        \<and> (\<forall>e. \<exists>x. world_shutdown c w e = Inl x) \<longrightarrow>
        (\<exists>x s1. shutdown c s = (Inl x, s1)))
   \<and> (\<forall>t ts w. main s = M_Shutdown (SD_Release t ts) \<and> world (task_objs s ! t) = Some w \<longrightarrow>
        exec c Shutdown s =
          (case world_shutdown c w (env s) of
             Inl e \<Rightarrow> (emit Main (EvWorldShutdown w) s)\<lparr>main := M_Raised e\<rparr>
           | Inr e' \<Rightarrow> (emit Main (EvWorldShutdown w) s)\<lparr>env := e', main := M_Shutdown (SD_Loop ts)\<rparr>))
   \<and> (\<forall>r s1. shutdown c s = (r, s1) \<longrightarrow>
        env s1 = replay c (drop (length (trace s)) (trace s1)) (env s))
   \<and> (\<not> in_shutdown (main s) \<longrightarrow>
        (\<exists>k. run c (replicate k Shutdown) s =
           (snd (shutdown c s))
             \<lparr>main := (case fst (shutdown c s) of
                         Inl e \<Rightarrow> M_Raised e | Inr u \<Rightarrow> M_Shutdown SD_Wait)\<rparr>))"
proof -
  have p1: "\<forall>e s1. shutdown c s = (Inl e, s1) \<longrightarrow>
      system_done s1 = system_done s \<and> executor_down s1 = executor_down s
      \<and> (\<exists>w. trace s1 \<noteq> [] \<and> last (trace s1) = (Main, EvWorldShutdown w) \<and> world_shutdown c w (env s1) = Inl e)"
  proof (intro allI impI)
    fix e s1 assume h: "shutdown c s = (Inl e, s1)"
    from shutdown_error_flag[OF h]
    have a: "system_done s1 = system_done s" "executor_down s1 = executor_down s" by simp_all
    from shutdown_error_flag[OF h] have "release_worlds c (map snd (tasks s)) s = (Inl e, s1)" by simp
    then have "\<exists>w. trace s1 \<noteq> [] \<and> last (trace s1) = (Main, EvWorldShutdown w) \<and> world_shutdown c w (env s1) = Inl e"
      by (rule release_worlds_error)
    with a show "system_done s1 = system_done s \<and> executor_down s1 = executor_down s
      \<and> (\<exists>w. trace s1 \<noteq> [] \<and> last (trace s1) = (Main, EvWorldShutdown w) \<and> world_shutdown c w (env s1) = Inl e)"
      by simp
  qed
  have p2: "\<forall>s1. shutdown c s = (Inr (), s1) \<longrightarrow>
      system_done s1 \<and> executor_down s1
      \<and> (\<forall>n t w. (n, t) \<in> set (tasks s) \<and> world (task_objs s ! t) = Some w \<longrightarrow>
            (Main, EvWorldShutdown w) \<in> set (drop (length (trace s)) (trace s1)))"
  proof (intro allI impI conjI)
    fix s1 assume h: "shutdown c s = (Inr (), s1)"
    from shutdown_flag[OF h] show "system_done s1" "executor_down s1" by simp_all
  next
    fix s1 n t w
    assume h: "shutdown c s = (Inr (), s1)"
      and r: "(n, t) \<in> set (tasks s) \<and> world (task_objs s ! t) = Some w"
    from h obtain s0 where s0: "release_worlds c (map snd (tasks s)) s = (Inr (), s0)"
      and s1: "s1 = (debug_log ''Executor shutting down.'' (s0\<lparr>system_done := True\<rparr>))\<lparr>executor_down := True\<rparr>"
      by (auto simp: shutdown_def split: prod.splits sum.splits)
    from r have "t \<in> set (map snd (tasks s))" by force
    from release_worlds_emits[OF s0 this] r
    have m: "(Main, EvWorldShutdown w) \<in> set (drop (length (trace s)) (trace s0))" by simp
    from release_worlds_trace_mono[OF s0] obtain evs where evs: "trace s0 = trace s @ evs" by blast
    show "(Main, EvWorldShutdown w) \<in> set (drop (length (trace s)) (trace s1))"
      using m evs by (auto simp: s1 debug_log_def)
  qed
  have p3: "\<forall>ts1 t ts2 s0 w e.
        map snd (tasks s) = ts1 @ t # ts2 \<and> release_worlds c ts1 s = (Inr (), s0)
        \<and> world (task_objs s ! t) = Some w \<and> world_shutdown c w (env s0) = Inl e \<longrightarrow>
        shutdown c s = (Inl e, emit Main (EvWorldShutdown w) s0)"
  proof (intro allI impI)
    fix ts1 t ts2 s0 w e
    assume h: "map snd (tasks s) = ts1 @ t # ts2 \<and> release_worlds c ts1 s = (Inr (), s0)
        \<and> world (task_objs s ! t) = Some w \<and> world_shutdown c w (env s0) = Inl e"
    then have r1: "release_worlds c ts1 s = (Inr (), s0)" by simp
    from release_worlds_frame[OF r1] h have w0: "world (task_objs s0 ! t) = Some w" by simp
    have "release_worlds c (ts1 @ t # ts2) s = (Inl e, emit Main (EvWorldShutdown w) s0)"
      using r1 w0 h by (simp add: release_worlds_append Let_def)
    with h show "shutdown c s = (Inl e, emit Main (EvWorldShutdown w) s0)"
      by (simp add: shutdown_def)
  qed
  have p4: "\<forall>n t w. (n, t) \<in> set (tasks s) \<and> world (task_objs s ! t) = Some w
        \<and> (\<forall>e. \<exists>x. world_shutdown c w e = Inl x) \<longrightarrow>
        (\<exists>x s1. shutdown c s = (Inl x, s1))"
  proof (intro allI impI)
    fix n t w
    assume h: "(n, t) \<in> set (tasks s) \<and> world (task_objs s ! t) = Some w
        \<and> (\<forall>e. \<exists>x. world_shutdown c w e = Inl x)"
    obtain r s0 where s0: "release_worlds c (map snd (tasks s)) s = (r, s0)"
      by (cases "release_worlds c (map snd (tasks s)) s")
    from h have tm: "t \<in> set (map snd (tasks s))" by force
    show "\<exists>x s1. shutdown c s = (Inl x, s1)"
    proof (cases r)
      case (Inl x)
      with s0 show ?thesis by (simp add: shutdown_def)
    next
      case (Inr u)
      with s0 release_worlds_all_succeed[of c "map snd (tasks s)" s u s0 t w] tm h
      obtain e e' where "world_shutdown c w e = Inr e'" by blast
      with h show ?thesis by (metis sum.distinct(1))
    qed
  qed
  have p5: "\<forall>t ts w. main s = M_Shutdown (SD_Release t ts) \<and> world (task_objs s ! t) = Some w \<longrightarrow>
        exec c Shutdown s =
          (case world_shutdown c w (env s) of
             Inl e \<Rightarrow> (emit Main (EvWorldShutdown w) s)\<lparr>main := M_Raised e\<rparr>
           | Inr e' \<Rightarrow> (emit Main (EvWorldShutdown w) s)\<lparr>env := e', main := M_Shutdown (SD_Loop ts)\<rparr>)"
    by (simp add: shutdown_step_def Let_def split: sum.splits)
  have p6: "\<forall>r s1. shutdown c s = (r, s1) \<longrightarrow>
        env s1 = replay c (drop (length (trace s)) (trace s1)) (env s)"
  proof (intro allI impI)
    fix r s1 assume "shutdown c s = (r, s1)"
    from shutdown_faithful[OF this]
    show "env s1 = replay c (drop (length (trace s)) (trace s1)) (env s)" by auto
  qed
  have p7: "\<not> in_shutdown (main s) \<longrightarrow>
        (\<exists>k. run c (replicate k Shutdown) s =
           (snd (shutdown c s))
             \<lparr>main := (case fst (shutdown c s) of
                         Inl e \<Rightarrow> M_Raised e | Inr u \<Rightarrow> M_Shutdown SD_Wait)\<rparr>)"
    using shutdown_uninterrupted[of s c] by blast
  from p1 p2 p3 p4 p5 p6 p7 show ?thesis by (intro conjI)
qed

theorem shutdown_release_outcome_witness:
  "fst (shutdown demo (demo_task_running fragile_env)) = Inl (Raised ''release failed'')
   \<and> system_done (snd (shutdown demo (demo_task_running fragile_env))) = system_done (demo_task_running fragile_env)
   \<and> executor_down (snd (shutdown demo (demo_task_running fragile_env))) = executor_down (demo_task_running fragile_env)
   \<and> fst (shutdown demo (demo_task_running (demo_env0 []))) = Inr ()
   \<and> system_done (snd (shutdown demo (demo_task_running (demo_env0 []))))
   \<and> executor_down (snd (shutdown demo (demo_task_running (demo_env0 []))))
   \<and> (Main, EvWorldShutdown 0) \<in> set (drop (length (trace (demo_task_running (demo_env0 []))))
         (trace (snd (shutdown demo (demo_task_running (demo_env0 []))))))
   \<and> shutdown demo (demo_task_running fragile_env) =
       (Inl (Raised ''release failed''), emit Main (EvWorldShutdown 0) (demo_task_running fragile_env))
   \<and> (\<exists>x s1. shutdown (demo\<lparr>world_shutdown := \<lambda>w e. Inl (Raised ''never'')\<rparr>)
                 (demo_task_running (demo_env0 [])) = (Inl x, s1))
   \<and> main (exec demo Shutdown (run demo [Shutdown, Shutdown] (demo_task_running fragile_env)))
       = M_Raised (Raised ''release failed'')
   \<and> released (env (snd (shutdown demo (demo_task_running (demo_env0 []))))) = [0]
   \<and> (\<exists>k. main (run demo (replicate k Shutdown) (demo_task_running (demo_env0 []))) = M_Shutdown SD_Wait)"
proof -
  let ?f = "demo_task_running fragile_env"
  let ?g = "demo_task_running (demo_env0 [])"
  let ?never = "demo\<lparr>world_shutdown := \<lambda>w e. Inl (Raised ''never'')\<rparr>"
  let ?f2 = "run demo [Shutdown, Shutdown] ?f"
  have f: "fst (shutdown demo ?f) = Inl (Raised ''release failed'')"
    by (simp add: demo_task_running_def fragile_env_def demo_simps)
  have hf: "shutdown demo ?f = (Inl (Raised ''release failed''), snd (shutdown demo ?f))"
    by (rule surjective_pairing[of "shutdown demo ?f", unfolded f])
  have g: "fst (shutdown demo ?g) = Inr ()"
    by (simp add: demo_task_running_def demo_simps)
  have hg: "shutdown demo ?g = (Inr (), snd (shutdown demo ?g))"
    by (rule surjective_pairing[of "shutdown demo ?g", unfolded g])
  have reg: "(''t'', 0) \<in> set (tasks ?g) \<and> world (task_objs ?g ! 0) = Some 0"
    by (simp add: demo_task_running_def demo_simps)
  have pre: "map snd (tasks ?f) = [] @ 0 # [] \<and> release_worlds demo [] ?f = (Inr (), ?f)
        \<and> world (task_objs ?f ! 0) = Some 0
        \<and> world_shutdown demo 0 (env ?f) = Inl (Raised ''release failed'')"
    by (simp add: demo_task_running_def fragile_env_def demo_simps)
  have nev: "(''t'', 0) \<in> set (tasks ?g) \<and> world (task_objs ?g ! 0) = Some 0
        \<and> (\<forall>e. \<exists>x. world_shutdown ?never 0 e = Inl x)"
    using reg by simp
  have rel: "main ?f2 = M_Shutdown (SD_Release 0 []) \<and> world (task_objs ?f2 ! 0) = Some 0"
    by (simp add: demo_task_running_def fragile_env_def demo_simps)
  have idle: "\<not> in_shutdown (main ?g)" by (simp add: demo_task_running_def demo_simps)
  note e1 = shutdown_release_outcome[of demo ?f, THEN conjunct1, THEN spec, THEN spec, THEN mp, OF hf]
  note e2 = shutdown_release_outcome[of demo ?g, THEN conjunct2, THEN conjunct1, THEN spec, THEN mp, OF hg]
  note e3 = shutdown_release_outcome[of demo ?f, THEN conjunct2, THEN conjunct2, THEN conjunct1,
      THEN spec, THEN spec, THEN spec, THEN spec, THEN spec, THEN spec, THEN mp, OF pre]
  note e4 = shutdown_release_outcome[of ?never ?g, THEN conjunct2, THEN conjunct2, THEN conjunct2,
      THEN conjunct1, THEN spec, THEN spec, THEN spec, THEN mp, OF nev]
  note e5 = shutdown_release_outcome[of demo ?f2, THEN conjunct2, THEN conjunct2, THEN conjunct2,
      THEN conjunct2, THEN conjunct1, THEN spec, THEN spec, THEN spec, THEN mp, OF rel]
  note e6 = shutdown_release_outcome[of demo ?g, THEN conjunct2, THEN conjunct2, THEN conjunct2,
      THEN conjunct2, THEN conjunct2, THEN conjunct1, THEN spec, THEN spec, THEN mp, OF hg]
  note e7 = shutdown_release_outcome[of demo ?g, THEN conjunct2, THEN conjunct2, THEN conjunct2,
      THEN conjunct2, THEN conjunct2, THEN conjunct2, THEN mp, OF idle]
  have c1: "system_done (snd (shutdown demo ?f)) = system_done ?f" using e1 by (rule conjunct1)
  have c2: "executor_down (snd (shutdown demo ?f)) = executor_down ?f"
    using e1 by (rule conjunct2[THEN conjunct1])
  have c3: "system_done (snd (shutdown demo ?g))" using e2 by (rule conjunct1)
  have c4: "executor_down (snd (shutdown demo ?g))" using e2 by (rule conjunct2[THEN conjunct1])
  have c5: "(Main, EvWorldShutdown 0) \<in> set (drop (length (trace ?g)) (trace (snd (shutdown demo ?g))))"
    by (rule e2[THEN conjunct2, THEN conjunct2, THEN spec, THEN spec, THEN spec, THEN mp, OF reg])
  have c6: "shutdown demo ?f = (Inl (Raised ''release failed''), emit Main (EvWorldShutdown 0) ?f)"
    by (rule e3)
  have c7: "\<exists>x s1. shutdown ?never ?g = (Inl x, s1)" by (rule e4)
  have wf: "world_shutdown demo 0 (env ?f2) = Inl (Raised ''release failed'')"
    by (simp add: demo_task_running_def fragile_env_def demo_simps)
  have c8: "main (exec demo Shutdown ?f2) = M_Raised (Raised ''release failed'')"
    unfolding e5 wf by simp
  have tr: "drop (length (trace ?g)) (trace (snd (shutdown demo ?g))) = [(Main, EvWorldShutdown 0)]"
    by (simp add: demo_task_running_def demo_simps)
  have c9: "released (env (snd (shutdown demo ?g))) = [0]"
    unfolding e6 tr by (simp add: demo_task_running_def demo_simps)
  from e7 obtain k where k: "run demo (replicate k Shutdown) ?g =
           (snd (shutdown demo ?g))
             \<lparr>main := (case fst (shutdown demo ?g) of
                         Inl e \<Rightarrow> M_Raised e | Inr u \<Rightarrow> M_Shutdown SD_Wait)\<rparr>" by blast
  have "main (run demo (replicate k Shutdown) ?g) = M_Shutdown SD_Wait"
    unfolding k by (simp add: g)
  then have c10: "\<exists>k. main (run demo (replicate k Shutdown) ?g) = M_Shutdown SD_Wait" by blast
  show ?thesis using f c1 c2 g c3 c4 c5 c6 c7 c8 c9 c10 by (intro conjI)
qed

section \<open>A session released twice\<close>

lemma steps_of_Cons: "steps_of j (a # acts) = steps_of j [a] + steps_of j acts"
  by (cases a) auto












text \<open>
  Claim C10, as stated, fails when the session's step raises.  A task world is running: its
  session is stored on its registry entry, its episode is not complete and its loop is about
  to call the step.  \<^verbatim>\<open>shutdown\<close> runs its release pass, sets the flag and shuts the pool
  down; the step raises and the job fails before the release of line 75; \<^verbatim>\<open>shutdown\<close>
  returns.  The session was released once, not twice.
\<close>

theorem shutdown_while_running_single_release_counterexample:
  "jobs (demo_task_stepping (demo_env0 [PStr ''crash''])) ! 0 = TaskRun (RW_Parley 0 PNone)
   \<and> world (task_objs (demo_task_stepping (demo_env0 [PStr ''crash''])) ! 0) = Some 0
   \<and> \<not> episode_done demo 0 (env (demo_task_stepping (demo_env0 [PStr ''crash''])))
   \<and> main (run demo [Shutdown, Shutdown, Shutdown, Shutdown, Shutdown, Shutdown, Shutdown,
                      Step 0, Shutdown, Shutdown]
             (demo_task_stepping (demo_env0 [PStr ''crash'']))) = M_Returned
   \<and> system_done (run demo [Shutdown, Shutdown, Shutdown, Shutdown, Shutdown, Shutdown, Shutdown,
                      Step 0, Shutdown, Shutdown]
             (demo_task_stepping (demo_env0 [PStr ''crash''])))
   \<and> jobs (run demo [Shutdown, Shutdown, Shutdown, Shutdown, Shutdown, Shutdown, Shutdown,
                      Step 0, Shutdown, Shutdown]
             (demo_task_stepping (demo_env0 [PStr ''crash'']))) = [Failed (Raised ''step failed'')]
   \<and> released (env (run demo [Shutdown, Shutdown, Shutdown, Shutdown, Shutdown, Shutdown, Shutdown,
                      Step 0, Shutdown, Shutdown]
             (demo_task_stepping (demo_env0 [PStr ''crash''])))) = [0]
   \<and> drop (length (trace (demo_task_stepping (demo_env0 [PStr ''crash'']))))
       (trace (run demo [Shutdown, Shutdown, Shutdown, Shutdown, Shutdown, Shutdown, Shutdown,
                      Step 0, Shutdown, Shutdown]
             (demo_task_stepping (demo_env0 [PStr ''crash''])))) =
       [(Main, EvWorldShutdown 0), (Worker 0, EvParley 0 (Inl (Raised ''step failed'')))]"
  by (simp add: demo_task_stepping_def demo_task_running_def demo_simps)



section \<open>The session field of a registry entry\<close>
















section \<open>Launching again under a used name\<close>

lemma launch_task_world_eq:
  "\<not> executor_down s \<Longrightarrow>
   launch_task_world n wn ags s =
     (Inr (length (jobs s)),
      s\<lparr>task_objs := task_objs s @ [(TaskState n wn ags False PNone)\<lparr>future := Some (length (jobs s))\<rparr>],
        tasks := AList.update n (length (task_objs s)) (tasks s),
        jobs := jobs s @ [TaskStart n (length (task_objs s)) wn ags]\<rparr>)"
  by (simp add: launch_task_world_def register_def submit_def set_future_def)

lemma rw_step_ext:
  assumes "\<forall>t\<in>set (rw_refs rw). t < length (task_objs s)"
  shows "rw_step c a rw (s\<lparr>task_objs := task_objs s @ [T], tasks := tk, jobs := jobs s @ [J]\<rparr>) =
     (case rw_step c a rw s of
        (r, s1) \<Rightarrow> (r, s1\<lparr>task_objs := task_objs s1 @ [T], tasks := tk, jobs := jobs s1 @ [J]\<rparr>))"
  using assms
  by (cases rw) (simp_all add: Let_def emit_def list_update_append nth_append split: sum.splits prod.splits)

lemma ow_step_ext:
  assumes "\<forall>t\<in>set (job_refs (OverRun f oc)). t < length (task_objs s)"
  shows "ow_step c a f oc (s\<lparr>task_objs := task_objs s @ [T], tasks := tk, jobs := jobs s @ [J]\<rparr>) =
     (case ow_step c a f oc s of
        (r, s1) \<Rightarrow> (r, s1\<lparr>task_objs := task_objs s1 @ [T], tasks := tk, jobs := jobs s1 @ [J]\<rparr>))"
proof (cases oc)
  case (OW_Run l rw)
  with assms have "\<forall>t\<in>set (rw_refs rw). t < length (task_objs s)" by simp
  from rw_step_ext[OF this, where c=c and a=a and T=T and tk=tk and J=J] OW_Run show ?thesis
    by (simp split: prod.splits rw_result.splits)
qed (simp_all add: Let_def emit_def split: sum.splits prod.splits)

lemma job_step_ext:
  assumes "\<forall>t\<in>set (job_refs jb). t < length (task_objs s)"
  shows "job_step c j jb (s\<lparr>task_objs := task_objs s @ [T], tasks := tk, jobs := jobs s @ [J]\<rparr>) =
     (case job_step c j jb s of
        (r, s1) \<Rightarrow> (r, s1\<lparr>task_objs := task_objs s1 @ [T], tasks := tk, jobs := jobs s1 @ [J]\<rparr>))"
proof (cases jb)
  case (TaskRun rw)
  with assms have "\<forall>t\<in>set (rw_refs rw). t < length (task_objs s)" by simp
  from rw_step_ext[OF this, where c=c and a="Worker j" and T=T and tk=tk and J=J] TaskRun show ?thesis
    by (simp split: prod.splits rw_result.splits)
next
  case (OverRun f oc)
  from ow_step_ext[OF assms[unfolded OverRun], where c=c and a="Worker j" and T=T and tk=tk and J=J] OverRun show ?thesis
    by (simp split: prod.splits ow_result.splits)
qed (simp_all add: emit_def)

lemma step_ext:
  assumes "refs_valid s" "j < length (jobs s)"
  shows "step c j (s\<lparr>task_objs := task_objs s @ [T], tasks := tk, jobs := jobs s @ [J]\<rparr>) =
     (step c j s)\<lparr>task_objs := task_objs (step c j s) @ [T], tasks := tk,
                  jobs := jobs (step c j s) @ [J]\<rparr>"
proof -
  from assms nth_mem[of j "jobs s"] have r: "\<forall>t\<in>set (job_refs (jobs s ! j)). t < length (task_objs s)"
    by (auto simp: refs_valid_def list_all_iff)
  obtain jb s1 where js: "job_step c j (jobs s ! j) s = (jb, s1)"
    by (cases "job_step c j (jobs s ! j) s")
  from job_step_frame[OF js] have l: "jobs s1 = jobs s" by simp
  from job_step_ext[OF r, where c=c and j=j and T=T and tk=tk and J=J] js assms(2) l show ?thesis
    by (simp add: step_def nth_append list_update_append)
qed

lemma step_launch_commute:
  assumes "refs_valid s" "j < length (jobs s)" "\<not> executor_down s"
  shows "step c j (snd (launch_task_world n wn ags s)) = snd (launch_task_world n wn ags (step c j s))"
proof -
  have e: "\<not> executor_down (step c j s)" using assms(3) step_frame[of c j s] by simp
  show ?thesis
    using step_frame[of c j s]
    by (simp add: launch_task_world_eq[OF assms(3)] launch_task_world_eq[OF e]
          step_ext[OF assms(1,2)])
qed

lemma rw_step_refs:
  "rw_step c a rw s = (RW_Next rw', s') \<Longrightarrow> rw_refs rw' = []"
  by (cases rw) (auto simp: Let_def split: sum.splits if_splits prod.splits)

lemma ow_step_refs:
  assumes "ow_step c a f oc s = (OW_Next oc', s')"
  shows "set (job_refs (OverRun f oc')) = {ow_task f}"
proof (cases oc)
  case (OW_Run l rw)
  then show ?thesis using assms rw_step_refs[of c a rw s]
    by (auto split: prod.splits rw_result.splits)
qed (use assms in \<open>auto simp: Let_def split: sum.splits if_splits prod.splits\<close>)

lemma job_step_refs:
  assumes "job_step c j jb s = (jb', s')"
  shows "set (job_refs jb') \<subseteq> set (job_refs jb)"
proof (cases jb)
  case (TaskRun rw)
  then show ?thesis using assms rw_step_refs[of c "Worker j" rw s]
    by (auto split: prod.splits rw_result.splits)
next
  case (OverRun f oc)
  have "ow_task f \<in> set (job_refs (OverRun f oc))" by (cases oc) auto
  then show ?thesis using OverRun assms ow_step_refs[of c "Worker j" f oc s]
    by (auto split: prod.splits ow_result.splits)
qed (use assms in auto)

lemma refs_valid_step: "refs_valid s \<Longrightarrow> refs_valid (step c j s)"
proof (cases "j < length (jobs s)")
  case True
  assume v: "refs_valid s"
  obtain jb s1 where js: "job_step c j (jobs s ! j) s = (jb, s1)"
    by (cases "job_step c j (jobs s ! j) s")
  from job_step_frame[OF js] have l: "jobs s1 = jobs s" "length (task_objs s1) = length (task_objs s)"
    by simp_all
  from v True nth_mem[of j "jobs s"] have "\<forall>t\<in>set (job_refs (jobs s ! j)). t < length (task_objs s)"
    by (auto simp: refs_valid_def list_all_iff)
  with job_step_refs[OF js] have n: "\<forall>t\<in>set (job_refs jb). t < length (task_objs s)" by blast
  have "\<forall>x\<in>set ((jobs s)[j := jb]). \<forall>t\<in>set (job_refs x). t < length (task_objs s)"
  proof
    fix x assume "x \<in> set ((jobs s)[j := jb])"
    then have "x = jb \<or> x \<in> set (jobs s)" using set_update_subset_insert[of "jobs s" j jb] by auto
    then show "\<forall>t\<in>set (job_refs x). t < length (task_objs s)"
      using n v by (auto simp: refs_valid_def list_all_iff)
  qed
  then show ?thesis using True js l by (simp add: step_def refs_valid_def list_all_iff)
qed (simp add: step_def)

lemma refs_valid_exec: "refs_valid s \<Longrightarrow> refs_valid (exec c a s)"
proof (cases a)
  case (LaunchTaskWorld n wn ags)
  assume "refs_valid s"
  then show ?thesis using LaunchTaskWorld
    by (fastforce simp: launch_task_world_def register_def submit_def set_future_def refs_valid_def
          list_all_iff intro: less_SucI)
next
  case (LaunchOverworld n own om oa)
  assume "refs_valid s"
  then show ?thesis using LaunchOverworld
    by (fastforce simp: launch_overworld_def register_def submit_def set_future_def refs_valid_def
          list_all_iff Let_def intro: less_SucI split: sum.splits)
next
  case Shutdown
  assume "refs_valid s"
  then show ?thesis using Shutdown by (simp add: refs_valid_def shutdown_step_frame)
next
  case (Step j)
  assume "refs_valid s"
  then show ?thesis using Step by (simp add: refs_valid_step)
next
  case (External g)
  assume "refs_valid s"
  then show ?thesis using External by (simp add: refs_valid_def)
qed

lemma refs_valid_run: "refs_valid s \<Longrightarrow> refs_valid (run c acts s)"
  by (induction acts rule: rev_induct) (simp_all add: run_def refs_valid_exec)

lemma refs_valid_reachable: "refs_valid (run c acts (init dbg e))"
  by (rule refs_valid_run) (simp add: refs_valid_def init_def debug_log_def emit_def)

lemma old_run_frame:
  "list_all (old_action k) acts \<Longrightarrow>
     length (jobs (run c acts s)) = length (jobs s) \<and> executor_down (run c acts s) = executor_down s
     \<and> tasks (run c acts s) = tasks s \<and> length (task_objs (run c acts s)) = length (task_objs s)"
proof (induction acts rule: rev_induct)
  case Nil
  then show ?case by (simp add: run_def)
next
  case (snoc a acts)
  then have ih: "length (jobs (run c acts s)) = length (jobs s) \<and> executor_down (run c acts s) = executor_down s
     \<and> tasks (run c acts s) = tasks s \<and> length (task_objs (run c acts s)) = length (task_objs s)"
    and oa: "old_action k a" by simp_all
  show ?case using oa ih step_frame[of c _ "run c acts s"] by (cases a) (simp_all add: run_snoc)
qed

lemma old_run_launch_commute:
  assumes "refs_valid s" "\<not> executor_down s"
  shows "list_all (old_action (length (jobs s))) acts \<Longrightarrow>
     run c acts (snd (launch_task_world n wn ags s)) = snd (launch_task_world n wn ags (run c acts s))"
proof (induction acts rule: rev_induct)
  case Nil
  then show ?case by (simp add: run_def)
next
  case (snoc a acts)
  then have ih: "run c acts (snd (launch_task_world n wn ags s)) = snd (launch_task_world n wn ags (run c acts s))"
    and oa: "old_action (length (jobs s)) a" and ol: "list_all (old_action (length (jobs s))) acts"
    by simp_all
  let ?m = "run c acts s"
  from old_run_frame[OF ol, of c s] assms(2)
  have fr: "length (jobs ?m) = length (jobs s)" "\<not> executor_down ?m" by simp_all
  have rv: "refs_valid ?m" using assms(1) by (rule refs_valid_run)
  show ?case
  proof (cases a)
    case (Step j)
    with oa fr have "j < length (jobs ?m)" by simp
    from step_launch_commute[OF rv this fr(2), of c n wn ags] Step ih show ?thesis
      by (simp add: run_snoc)
  next
    case (External g)
    then show ?thesis using ih fr(2)
      by (simp add: run_snoc launch_task_world_def register_def submit_def set_future_def)
  qed (use oa in simp_all)
qed

lemma run_other_job:
  "i < length (jobs s) \<Longrightarrow> steps_of i acts = 0 \<Longrightarrow> jobs (run c acts s) ! i = jobs s ! i"
proof (induction acts arbitrary: s)
  case Nil
  then show ?case by (simp add: run_def)
next
  case (Cons a acts)
  from Cons.prems(2) steps_of_Cons[of i a acts]
  have z: "steps_of i [a] = 0" "steps_of i acts = 0" by simp_all
  from z(1) have ne: "a \<noteq> Step i" by auto
  have il: "i < length (jobs (exec c a s))"
    using Cons.prems(1) exec_jobs_length[of s c a] by simp
  from Cons.IH[OF il z(2)] exec_other_job[OF Cons.prems(1) ne, of c]
  show ?case by (simp add: run_Cons)
qed

text \<open>
  Claim C7.  Let a task be launched under a name that the registry already holds, while the
  pool accepts jobs.  The launch returns a new handle; the name's registry entry is
  overwritten to point at the new task object, the registry keeps one entry per name and its
  other entries; the earlier task objects and the earlier jobs, with their handles, are
  unchanged; and whatever the earlier jobs and the outside world do next, they do the same
  with or without the second launch: running them after the launch gives the state that the
  launch gives after running them, with the same jobs, the same collaborator state and the
  same trace.  After the launch both jobs proceed, each by its own statements only: in any
  execution whatever, with statements of either job, of other jobs and of \<^verbatim>\<open>shutdown\<close>, a
  job is where it was for as long as it has executed no statement of its own (nothing
  cancels it), and a statement of a job is the next statement of its own loop.  The first
  statement of the second job takes it to the construction of its session for the new entry
  and leaves the earlier jobs where they are.
\<close>

theorem relaunch_same_name:
  assumes "refs_valid s" and "\<not> executor_down s" and "n \<in> fst ` set (tasks s)"
  shows "fst (launch_task_world n wn ags s) = Inr (length (jobs s))
    \<and> map_of (tasks (snd (launch_task_world n wn ags s))) n = Some (length (task_objs s))
    \<and> map fst (tasks (snd (launch_task_world n wn ags s))) = map fst (tasks s)
    \<and> (\<forall>k. k \<noteq> n \<longrightarrow> map_of (tasks (snd (launch_task_world n wn ags s))) k = map_of (tasks s) k)
    \<and> task_objs (snd (launch_task_world n wn ags s)) =
        task_objs s @ [(TaskState n wn ags False PNone)\<lparr>future := Some (length (jobs s))\<rparr>]
    \<and> jobs (snd (launch_task_world n wn ags s)) = jobs s @ [TaskStart n (length (task_objs s)) wn ags]
    \<and> (\<forall>acts. list_all (old_action (length (jobs s))) acts \<longrightarrow>
         run c acts (snd (launch_task_world n wn ags s)) = snd (launch_task_world n wn ags (run c acts s))
         \<and> take (length (jobs s)) (jobs (run c acts (snd (launch_task_world n wn ags s)))) = jobs (run c acts s)
         \<and> take (length (task_objs s)) (task_objs (run c acts (snd (launch_task_world n wn ags s))))
             = task_objs (run c acts s)
         \<and> env (run c acts (snd (launch_task_world n wn ags s))) = env (run c acts s)
         \<and> trace (run c acts (snd (launch_task_world n wn ags s))) = trace (run c acts s))
    \<and> (\<forall>acts i. i \<le> length (jobs s) \<and> steps_of i acts = 0 \<longrightarrow>
         jobs (run c acts (snd (launch_task_world n wn ags s))) ! i
           = jobs (snd (launch_task_world n wn ags s)) ! i)
    \<and> (\<forall>s2 i. i < length (jobs s2) \<longrightarrow>
         jobs (step c i s2) ! i = fst (job_step c i (jobs s2 ! i) s2))
    \<and> jobs (step c (length (jobs s)) (snd (launch_task_world n wn ags s)))
         = jobs s @ [TaskRun (RW_Generate (length (task_objs s)) wn ags)]"
proof -
  note eq = launch_task_world_eq[OF assms(2), of n wn ags]
  have p1: "fst (launch_task_world n wn ags s) = Inr (length (jobs s))" by (simp add: eq)
  have p2: "map_of (tasks (snd (launch_task_world n wn ags s))) n = Some (length (task_objs s))"
    by (simp add: eq update_conv')
  have p3: "map fst (tasks (snd (launch_task_world n wn ags s))) = map fst (tasks s)"
    using assms(3) by (simp add: eq update_keys)
  have p4: "\<forall>k. k \<noteq> n \<longrightarrow> map_of (tasks (snd (launch_task_world n wn ags s))) k = map_of (tasks s) k"
    by (simp add: eq update_conv')
  have p5: "task_objs (snd (launch_task_world n wn ags s)) =
        task_objs s @ [(TaskState n wn ags False PNone)\<lparr>future := Some (length (jobs s))\<rparr>]"
    by (simp add: eq)
  have p6: "jobs (snd (launch_task_world n wn ags s)) = jobs s @ [TaskStart n (length (task_objs s)) wn ags]"
    by (simp add: eq)
  have p7: "\<forall>acts. list_all (old_action (length (jobs s))) acts \<longrightarrow>
         run c acts (snd (launch_task_world n wn ags s)) = snd (launch_task_world n wn ags (run c acts s))
         \<and> take (length (jobs s)) (jobs (run c acts (snd (launch_task_world n wn ags s)))) = jobs (run c acts s)
         \<and> take (length (task_objs s)) (task_objs (run c acts (snd (launch_task_world n wn ags s))))
             = task_objs (run c acts s)
         \<and> env (run c acts (snd (launch_task_world n wn ags s))) = env (run c acts s)
         \<and> trace (run c acts (snd (launch_task_world n wn ags s))) = trace (run c acts s)"
  proof (intro allI impI)
    fix acts :: "'a action list"
    assume ol: "list_all (old_action (length (jobs s))) acts"
    from old_run_frame[OF ol, of c s] assms(2)
    have fr: "length (jobs (run c acts s)) = length (jobs s)" "\<not> executor_down (run c acts s)"
      "length (task_objs (run c acts s)) = length (task_objs s)" by simp_all
    note cm = old_run_launch_commute[OF assms(1,2) ol, of c n wn ags]
    note eq2 = launch_task_world_eq[OF fr(2), of n wn ags]
    show "run c acts (snd (launch_task_world n wn ags s)) = snd (launch_task_world n wn ags (run c acts s))
         \<and> take (length (jobs s)) (jobs (run c acts (snd (launch_task_world n wn ags s)))) = jobs (run c acts s)
         \<and> take (length (task_objs s)) (task_objs (run c acts (snd (launch_task_world n wn ags s))))
             = task_objs (run c acts s)
         \<and> env (run c acts (snd (launch_task_world n wn ags s))) = env (run c acts s)
         \<and> trace (run c acts (snd (launch_task_world n wn ags s))) = trace (run c acts s)"
      unfolding cm using fr by (simp add: eq2)
  qed
  have p8: "\<forall>acts i. i \<le> length (jobs s) \<and> steps_of i acts = 0 \<longrightarrow>
         jobs (run c acts (snd (launch_task_world n wn ags s))) ! i
           = jobs (snd (launch_task_world n wn ags s)) ! i"
  proof (intro allI impI)
    fix acts :: "'a action list" and i
    assume h: "i \<le> length (jobs s) \<and> steps_of i acts = 0"
    then have "i < length (jobs (snd (launch_task_world n wn ags s)))" by (simp add: p6)
    with h show "jobs (run c acts (snd (launch_task_world n wn ags s))) ! i
           = jobs (snd (launch_task_world n wn ags s)) ! i"
      by (simp add: run_other_job)
  qed
  have p9: "\<forall>s2 i. i < length (jobs s2) \<longrightarrow>
         jobs (step c i s2) ! i = fst (job_step c i (jobs s2 ! i) s2)"
    by (simp add: step_job)
  have p10: "jobs (step c (length (jobs s)) (snd (launch_task_world n wn ags s)))
         = jobs s @ [TaskRun (RW_Generate (length (task_objs s)) wn ags)]"
    by (simp add: eq step_def)
  from p1 p2 p3 p4 p5 p6 p7 p8 p9 p10 show ?thesis by (intro conjI)
qed

theorem relaunch_same_name_witness:
  "fst (launch_task_world ''t'' (PStr ''w2'') [] (demo_task_running (demo_env0 [PStr ''a'']))) = Inr 1
   \<and> map_of (tasks (snd (launch_task_world ''t'' (PStr ''w2'') []
        (demo_task_running (demo_env0 [PStr ''a'']))))) ''t'' = Some 1
   \<and> map fst (tasks (snd (launch_task_world ''t'' (PStr ''w2'') []
        (demo_task_running (demo_env0 [PStr ''a'']))))) = [''t'']
   \<and> take 1 (jobs (run demo [Step 0, Step 0, Step 0, Step 0, Step 0, Step 0]
        (snd (launch_task_world ''t'' (PStr ''w2'') [] (demo_task_running (demo_env0 [PStr ''a'']))))))
      = [Done (TaskResult (PStr ''a'') [])]
   \<and> jobs (run demo [Step 1, Shutdown, Step 1, Shutdown, Shutdown]
        (snd (launch_task_world ''t'' (PStr ''w2'') [] (demo_task_running (demo_env0 [PStr ''a'']))))) ! 0
      = TaskRun (RW_Test 0 PNone)
   \<and> jobs (run demo [Step 0, Step 1, Step 0, Step 1, Step 0, Step 1, Step 0, Step 1, Step 0, Step 1,
                     Step 0]
        (snd (launch_task_world ''t'' (PStr ''w2'') [] (demo_task_running (demo_env0 [PStr ''a''])))))
      = [Done (TaskResult (PStr ''a'') []), Done (TaskResult PNone [])]"
proof -
  let ?s = "demo_task_running (demo_env0 [PStr ''a''])"
  let ?acts = "[Step 0, Step 0, Step 0, Step 0, Step 0, Step 0] :: demo_env action list"
  have h1: "refs_valid ?s" by (simp add: refs_valid_def demo_task_running_def demo_simps)
  have h2: "\<not> executor_down ?s" by (simp add: demo_task_running_def demo_simps)
  have tk: "tasks ?s = [(''t'', 0)]" by (simp add: demo_task_running_def demo_simps)
  have h3: "''t'' \<in> fst ` set (tasks ?s)" by (simp add: tk)
  have lj: "length (jobs ?s) = 1" by (simp add: demo_task_running_def demo_simps)
  have lt: "length (task_objs ?s) = 1" by (simp add: demo_task_running_def demo_simps)
  have h4: "list_all (old_action (length (jobs ?s))) ?acts" by (simp add: lj)
  have r: "jobs (run demo ?acts ?s) = [Done (TaskResult (PStr ''a'') [])]"
    by (simp add: demo_task_running_def demo_simps)
  note t = relaunch_same_name[OF h1 h2 h3, where wn="PStr ''w2''" and ags="[]" and c=demo]
  from t[THEN conjunct1]
  have c1: "fst (launch_task_world ''t'' (PStr ''w2'') [] ?s) = Inr 1" by (simp add: lj)
  from t[THEN conjunct2, THEN conjunct1]
  have c2: "map_of (tasks (snd (launch_task_world ''t'' (PStr ''w2'') [] ?s))) ''t'' = Some 1"
    by (simp add: lt)
  from t[THEN conjunct2, THEN conjunct2, THEN conjunct1]
  have c3: "map fst (tasks (snd (launch_task_world ''t'' (PStr ''w2'') [] ?s))) = [''t'']"
    by (simp add: tk)
  from t[THEN conjunct2, THEN conjunct2, THEN conjunct2, THEN conjunct2, THEN conjunct2,
         THEN conjunct2, THEN conjunct1, THEN spec, THEN mp, OF h4, THEN conjunct2, THEN conjunct1]
  have c4: "take 1 (jobs (run demo ?acts (snd (launch_task_world ''t'' (PStr ''w2'') [] ?s))))
      = [Done (TaskResult (PStr ''a'') [])]"
    by (simp add: lj r)
  let ?o = "[Step 1, Shutdown, Step 1, Shutdown, Shutdown] :: demo_env action list"
  have h5: "0 \<le> length (jobs ?s) \<and> steps_of 0 ?o = 0" by simp
  have j0: "jobs (snd (launch_task_world ''t'' (PStr ''w2'') [] ?s)) ! 0 = TaskRun (RW_Test 0 PNone)"
    by (simp add: demo_task_running_def demo_simps)
  from t[THEN conjunct2, THEN conjunct2, THEN conjunct2, THEN conjunct2, THEN conjunct2,
         THEN conjunct2, THEN conjunct2, THEN conjunct1, THEN spec, THEN spec, THEN mp, OF h5]
  have c5: "jobs (run demo ?o (snd (launch_task_world ''t'' (PStr ''w2'') [] ?s))) ! 0
      = TaskRun (RW_Test 0 PNone)"
    by (simp add: j0)
  have c6: "jobs (run demo [Step 0, Step 1, Step 0, Step 1, Step 0, Step 1, Step 0, Step 1, Step 0,
                     Step 1, Step 0]
        (snd (launch_task_world ''t'' (PStr ''w2'') [] ?s)))
      = [Done (TaskResult (PStr ''a'') []), Done (TaskResult PNone [])]"
    by (simp add: demo_task_running_def demo_simps)
  from c1 c2 c3 c4 c5 c6 show ?thesis by (intro conjI)
qed

section \<open>Loops that end on the stop flag, and one that does not\<close>

lemma rw_step_rank:
  "system_done s \<Longrightarrow> rw_step c a rw s = (RW_Next rw', s') \<Longrightarrow> rw_rank rw' \<le> rw_rank rw - 1"
  by (cases rw) (auto simp: Let_def split: sum.splits if_splits prod.splits)

lemma ow_step_rank:
  assumes "system_done s" "ow_step c a f oc s = (OW_Next oc', s')"
  shows "ow_rank oc' \<le> ow_rank oc - 1"
proof (cases oc)
  case (OW_Run l rw)
  then show ?thesis using assms rw_step_rank[of s c a rw]
    by (auto split: prod.splits rw_result.splits)
qed (use assms in \<open>auto simp: Let_def split: sum.splits if_splits prod.splits\<close>)

lemma job_step_rank:
  assumes "system_done s"
  shows "run_rank (fst (job_step c j jb s)) \<le> run_rank jb - 1"
proof (cases jb)
  case (TaskRun rw)
  then show ?thesis using assms rw_step_rank[of s c "Worker j" rw]
    by (auto split: prod.splits rw_result.splits)
next
  case (OverRun f oc)
  then show ?thesis using assms ow_step_rank[of s c "Worker j" f oc]
    by (auto split: prod.splits ow_result.splits)
qed simp_all

lemma exec_rank:
  assumes "system_done s" "j < length (jobs s)"
  shows "run_rank (jobs (exec c a s) ! j) \<le> run_rank (jobs s ! j) - steps_of j [a]"
proof (cases "a = Step j")
  case True
  then show ?thesis using assms step_job[of j s c] job_step_rank[of s c j "jobs s ! j"] by simp
next
  case False
  then have "steps_of j [a] = 0" by (cases a) auto
  then show ?thesis using exec_other_job[OF assms(2) False, of c] by simp
qed

lemma run_rank_run:
  "system_done s \<Longrightarrow> j < length (jobs s) \<Longrightarrow>
     run_rank (jobs (run c acts s) ! j) \<le> run_rank (jobs s ! j) - steps_of j acts"
proof (induction acts arbitrary: s)
  case Nil
  then show ?case by (simp add: run_def)
next
  case (Cons a acts)
  have sd: "system_done (exec c a s)" using Cons.prems(1) by (rule exec_mono)
  have jl: "j < length (jobs (exec c a s))"
    using Cons.prems(2) exec_jobs_length[of s c a] by simp
  from Cons.IH[OF sd jl] exec_rank[OF Cons.prems, of c a] steps_of_Cons[of j a acts]
  show ?case by (simp add: run_Cons)
qed

lemma job_step_sup_rank:
  assumes "system_done s" "sup_rank jb = Some d"
  shows "\<exists>d'. sup_rank (fst (job_step c j jb s)) = Some d' \<and> d' \<le> d - 1"
proof (cases jb)
  case (OverRun f oc)
  then show ?thesis using assms
    by (cases oc) (auto simp: Let_def read_local_def split: sum.splits option.splits)
qed (use assms in simp_all)

lemma exec_sup_rank:
  assumes "system_done s" "j < length (jobs s)" "sup_rank (jobs s ! j) = Some d"
  shows "\<exists>d'. sup_rank (jobs (exec c a s) ! j) = Some d' \<and> d' \<le> d - steps_of j [a]"
proof (cases "a = Step j")
  case True
  then show ?thesis
    using assms step_job[of j s c] job_step_sup_rank[of s "jobs s ! j" d c j] by simp
next
  case False
  then have "steps_of j [a] = 0" by (cases a) auto
  then show ?thesis using exec_other_job[OF assms(2) False, of c] assms(3) by simp
qed

lemma sup_rank_run:
  "system_done s \<Longrightarrow> j < length (jobs s) \<Longrightarrow> sup_rank (jobs s ! j) = Some d \<Longrightarrow>
     \<exists>d'. sup_rank (jobs (run c acts s) ! j) = Some d' \<and> d' \<le> d - steps_of j acts"
proof (induction acts arbitrary: s d)
  case Nil
  then show ?case by (simp add: run_def)
next
  case (Cons a acts)
  have sd: "system_done (exec c a s)" using Cons.prems(1) by (rule exec_mono)
  have jl: "j < length (jobs (exec c a s))"
    using Cons.prems(2) exec_jobs_length[of s c a] by simp
  from exec_sup_rank[OF Cons.prems, of c a] obtain d1
    where d1: "sup_rank (jobs (exec c a s) ! j) = Some d1" "d1 \<le> d - steps_of j [a]" by blast
  from Cons.IH[OF sd jl d1(1)] obtain d2
    where d2: "sup_rank (jobs (run c acts (exec c a s)) ! j) = Some d2" "d2 \<le> d1 - steps_of j acts"
    by blast
  from d1(2) d2 steps_of_Cons[of j a acts] show ?case by (simp add: run_Cons)
qed

lemma running_rank: "running jb \<Longrightarrow> 0 < run_rank jb \<and> run_rank jb \<le> 3"
proof (cases jb)
  case (TaskRun rw)
  assume "running jb"
  with TaskRun show ?thesis by (cases rw) auto
next
  case (OverRun f oc)
  assume r: "running jb"
  show ?thesis
  proof (cases oc)
    case (OW_Run l rw)
    with r OverRun show ?thesis by (cases rw) auto
  qed (use r OverRun in auto)
qed auto

lemma supervising_rank: "supervising jb \<Longrightarrow> \<exists>d. sup_rank jb = Some d \<and> d \<le> 2"
proof (cases jb)
  case (OverRun f oc)
  assume "supervising jb"
  with OverRun show ?thesis by (cases oc) auto
qed auto

lemma sup_rank_0: "sup_rank jb = Some 0 \<Longrightarrow> past_supervising jb"
proof (cases jb)
  case (OverRun f oc)
  assume "sup_rank jb = Some 0"
  with OverRun show ?thesis by (cases oc) auto
qed auto

lemma job_step_polling:
  assumes "polling oc"
    "get_active_agent c (agent_state f) (env s) \<noteq> Some (overworld_agent f)"
  shows "\<exists>oc'. fst (job_step c j (OverRun f oc) s) = OverRun f oc' \<and> polling oc'"
  using assms by (cases oc) (auto simp: Let_def)

lemma polling_run:
  "j < length (jobs s) \<Longrightarrow> jobs s ! j = OverRun f oc \<Longrightarrow> polling oc \<Longrightarrow> never_back c f acts s \<Longrightarrow>
     \<exists>oc'. jobs (run c acts s) ! j = OverRun f oc' \<and> polling oc'"
proof (induction acts arbitrary: s oc)
  case Nil
  then show ?case by (simp add: run_def)
next
  case (Cons a acts)
  from Cons.prems(4) have nb: "get_active_agent c (agent_state f) (env s) \<noteq> Some (overworld_agent f)"
    and nb': "never_back c f acts (exec c a s)" by simp_all
  have jl: "j < length (jobs (exec c a s))"
    using Cons.prems(1) exec_jobs_length[of s c a] by simp
  have "\<exists>oc1. jobs (exec c a s) ! j = OverRun f oc1 \<and> polling oc1"
  proof (cases "a = Step j")
    case True
    then show ?thesis
      using step_job[OF Cons.prems(1), of c] job_step_polling[OF Cons.prems(3) nb, of j] Cons.prems(2)
      by simp
  next
    case False
    then show ?thesis using exec_other_job[OF Cons.prems(1) False, of c] Cons.prems(2,3) by simp
  qed
  then obtain oc1 where o1: "jobs (exec c a s) ! j = OverRun f oc1" "polling oc1" by blast
  from Cons.IH[OF jl o1 nb'] show ?case by (simp add: run_Cons)
qed

text \<open>
  Claim C1, as stated, fails for the poll for the participant's return, which never reads
  the stop flag (lines 158 and 159).  An overworld has routed its participant to a task
  world and polls; \<^verbatim>\<open>shutdown\<close> has set the flag.  Three rounds of poll and delay later
  the job is still polling, and \<^verbatim>\<open>shutdown\<close> is still waiting for the pool to drain.
\<close>

theorem waiting_poll_ignores_stop_flag_counterexample:
  "system_done demo_overworld_waiting
   \<and> jobs demo_overworld_waiting ! 0 =
       OverRun \<lparr>ow_task = 0, overworld_name = PStr ''ow'', onboard_map = [],
                overworld_agent = Agent 0 ''u'', agent_state = 0\<rparr>
         (OW_WaitTest \<lparr>overworld = 0, world_type = Some (PStr ''r'')\<rparr>)
   \<and> jobs (run demo [Step 0, Step 0, Step 0, Step 0, Step 0, Step 0] demo_overworld_waiting) ! 0 =
       OverRun \<lparr>ow_task = 0, overworld_name = PStr ''ow'', onboard_map = [],
                overworld_agent = Agent 0 ''u'', agent_state = 0\<rparr>
         (OW_WaitTest \<lparr>overworld = 0, world_type = Some (PStr ''r'')\<rparr>)
   \<and> drop (length (trace demo_overworld_waiting))
       (trace (run demo [Step 0, Step 0, Step 0, Step 0, Step 0, Step 0] demo_overworld_waiting)) =
       [(Worker 0, EvGetActiveAgent 0), (Worker 0, EvSleep 2000),
        (Worker 0, EvGetActiveAgent 0), (Worker 0, EvSleep 2000),
        (Worker 0, EvGetActiveAgent 0), (Worker 0, EvSleep 2000)]
   \<and> main (run demo [Shutdown, Shutdown, Shutdown, Step 0, Step 0, Shutdown, Step 0, Step 0, Shutdown]
             demo_overworld_waiting) = M_Shutdown SD_Wait"
  by (simp add: demo_overworld_waiting_def demo_overworld_started_def demo_simps)

text \<open>
  Claim C1, amended.  Let the stop flag be set.  A job inside a task world loop, whether a
  task world or the onboarding run of an overworld, is out of that loop once it has executed
  three more statements (at most the step under way, its delay and the test of the loop
  condition), whatever the sessions, the manager and the other threads do.  A job at the head
  of the supervising loop, or in the delay of a null route, has left the supervising loop
  once it has executed two more statements.  The poll for the participant's return does not
  end on the flag: for as long as the manager does not report the overworld agent as the
  active one, the job goes on polling.
\<close>

theorem stop_flag_ends_loops:
  assumes "system_done s" and "j < length (jobs s)"
  shows "(running (jobs s ! j) \<longrightarrow>
            (\<forall>acts. 3 \<le> steps_of j acts \<longrightarrow> \<not> running (jobs (run c acts s) ! j)))
    \<and> (supervising (jobs s ! j) \<longrightarrow>
            (\<forall>acts. 2 \<le> steps_of j acts \<longrightarrow> past_supervising (jobs (run c acts s) ! j)))
    \<and> (\<forall>f oc acts. jobs s ! j = OverRun f oc \<and> polling oc \<and> never_back c f acts s \<longrightarrow>
            waiting (jobs (run c acts s) ! j))"
proof -
  have p1: "running (jobs s ! j) \<longrightarrow>
            (\<forall>acts. 3 \<le> steps_of j acts \<longrightarrow> \<not> running (jobs (run c acts s) ! j))"
  proof (intro impI allI)
    fix acts :: "'a action list"
    assume r: "running (jobs s ! j)" and n: "3 \<le> steps_of j acts"
    from running_rank[OF r] run_rank_run[OF assms, of c acts] n
    have "run_rank (jobs (run c acts s) ! j) = 0" by simp
    then show "\<not> running (jobs (run c acts s) ! j)"
      using running_rank[of "jobs (run c acts s) ! j"] by auto
  qed
  have p2: "supervising (jobs s ! j) \<longrightarrow>
            (\<forall>acts. 2 \<le> steps_of j acts \<longrightarrow> past_supervising (jobs (run c acts s) ! j))"
  proof (intro impI allI)
    fix acts :: "'a action list"
    assume r: "supervising (jobs s ! j)" and n: "2 \<le> steps_of j acts"
    from supervising_rank[OF r] obtain d where d: "sup_rank (jobs s ! j) = Some d" "d \<le> 2" by blast
    from sup_rank_run[OF assms d(1), of c acts] d(2) n
    have "sup_rank (jobs (run c acts s) ! j) = Some 0" by auto
    then show "past_supervising (jobs (run c acts s) ! j)" by (rule sup_rank_0)
  qed
  have p3: "\<forall>f oc acts. jobs s ! j = OverRun f oc \<and> polling oc \<and> never_back c f acts s \<longrightarrow>
            waiting (jobs (run c acts s) ! j)"
  proof (intro allI impI)
    fix f oc and acts :: "'a action list"
    assume h: "jobs s ! j = OverRun f oc \<and> polling oc \<and> never_back c f acts s"
    then have "\<exists>oc'. jobs (run c acts s) ! j = OverRun f oc' \<and> polling oc'"
      using polling_run[OF assms(2), of f oc c acts] by simp
    then show "waiting (jobs (run c acts s) ! j)" by auto
  qed
  from p1 p2 p3 show ?thesis by (intro conjI)
qed

theorem stop_flag_ends_loops_witness:
  "\<not> running (jobs (run demo [Step 0, External (\<lambda>e. e\<lparr>payload := Some []\<rparr>), Step 0, Step 0]
        (run demo [Step 0, Shutdown, Shutdown, Shutdown, Shutdown, Shutdown] (demo_task_running (demo_env0 [PStr ''a'', PStr ''b''])))) ! 0)
   \<and> past_supervising (jobs (run demo [Step 0, Step 0]
        (run demo [Step 0, Step 0, Shutdown, Shutdown, Shutdown, Shutdown] (demo_overworld_started [] (demo_env0 [])))) ! 0)
   \<and> waiting (jobs (run demo [Step 0, Step 0, Step 0, Step 0] demo_overworld_waiting) ! 0)"
proof -
  let ?sa = "run demo [Step 0, Shutdown, Shutdown, Shutdown, Shutdown, Shutdown] (demo_task_running (demo_env0 [PStr ''a'', PStr ''b'']))"
  let ?aa = "[Step 0, External (\<lambda>e. e\<lparr>payload := Some []\<rparr>), Step 0, Step 0] :: demo_env action list"
  let ?sb = "run demo [Step 0, Step 0, Shutdown, Shutdown, Shutdown, Shutdown] (demo_overworld_started [] (demo_env0 []))"
  let ?ab = "[Step 0, Step 0] :: demo_env action list"
  let ?sc = "demo_overworld_waiting"
  let ?ac = "[Step 0, Step 0, Step 0, Step 0] :: demo_env action list"
  let ?f = "\<lparr>ow_task = 0, overworld_name = PStr ''ow'', onboard_map = [],
             overworld_agent = Agent 0 ''u'', agent_state = 0\<rparr>"
  let ?oc = "OW_WaitTest \<lparr>overworld = 0, world_type = Some (PStr ''r'')\<rparr>"
  have a1: "system_done ?sa" by (simp add: demo_task_running_def demo_simps)
  have a2: "0 < length (jobs ?sa)" by (simp add: demo_task_running_def demo_simps)
  have a3: "running (jobs ?sa ! 0)" by (simp add: demo_task_running_def demo_simps)
  have a4: "3 \<le> steps_of 0 ?aa" by simp
  have b1: "system_done ?sb" by (simp add: demo_overworld_started_def demo_simps)
  have b2: "0 < length (jobs ?sb)" by (simp add: demo_overworld_started_def demo_simps)
  have b3: "supervising (jobs ?sb ! 0)" by (simp add: demo_overworld_started_def demo_simps)
  have b4: "2 \<le> steps_of 0 ?ab" by simp
  have c1: "system_done ?sc"
    by (simp add: demo_overworld_waiting_def demo_overworld_started_def demo_simps)
  have c2: "0 < length (jobs ?sc)"
    by (simp add: demo_overworld_waiting_def demo_overworld_started_def demo_simps)
  have c3: "jobs ?sc ! 0 = OverRun ?f ?oc \<and> polling ?oc \<and> never_back demo ?f ?ac ?sc"
    by (simp add: demo_overworld_waiting_def demo_overworld_started_def demo_simps)
  from stop_flag_ends_loops[OF a1 a2, of demo, THEN conjunct1, THEN mp, OF a3, THEN spec, THEN mp, OF a4]
  have r1: "\<not> running (jobs (run demo ?aa ?sa) ! 0)" .
  from stop_flag_ends_loops[OF b1 b2, of demo, THEN conjunct2, THEN conjunct1, THEN mp, OF b3,
        THEN spec, THEN mp, OF b4]
  have r2: "past_supervising (jobs (run demo ?ab ?sb) ! 0)" .
  from stop_flag_ends_loops[OF c1 c2, of demo, THEN conjunct2, THEN conjunct2, THEN spec, THEN spec,
        THEN spec, THEN mp, OF c3]
  have r3: "waiting (jobs (run demo ?ac ?sc) ! 0)" .
  from r1 r2 r3 show ?thesis by (intro conjI)
qed

section \<open>What one job does in an execution\<close>

lemma rw_step_events:
  assumes "rw_step c a rw s = (res, s')"
  shows "\<exists>evs. trace s' = trace s @ map (Pair a) evs"
proof (cases rw)
  case (RW_Test w r)
  show ?thesis
  proof (cases "episode_done c w (env s)")
    case True
    with RW_Test assms have "trace s' = trace s @ map (Pair a) [EvEpisodeDone w True]"
      by (auto simp: Let_def)
    then show ?thesis by blast
  next
    case False
    with RW_Test assms
    have "trace s' = trace s @ map (Pair a) [EvEpisodeDone w False, EvStopFlag (system_done s)]"
      by (auto simp: Let_def split: if_splits)
    then show ?thesis by blast
  qed
next
  case (RW_Generate t wn ags)
  with assms have "trace s' = trace s @ map (Pair a) [EvGenerateWorld wn ags (next_wid s)]"
    by (auto simp: Let_def split: sum.splits)
  then show ?thesis by blast
next
  case (RW_Parley w r)
  with assms have "\<exists>res. trace s' = trace s @ map (Pair a) [EvParley w res]"
    by (auto simp: Let_def split: sum.splits prod.splits)
  then show ?thesis by blast
next
  case (RW_Sleep w r)
  with assms have "trace s' = trace s @ map (Pair a) [EvSleep 300]" by auto
  then show ?thesis by blast
next
  case (RW_Shutdown w r)
  with assms have "trace s' = trace s @ map (Pair a) [EvWorldShutdown w]"
    by (auto simp: Let_def split: sum.splits)
  then show ?thesis by blast
next
  case (RW_Return w r)
  with assms have "trace s' = trace s @ map (Pair a) [EvData w (world_data c w (env s))]"
    by (auto simp: Let_def)
  then show ?thesis by blast
qed

lemma one_event: "trace s' = trace s @ [(a, ev)] \<Longrightarrow> \<exists>evs. trace s' = trace s @ map (Pair a) evs"
  by (rule exI[of _ "[ev]"]) simp

lemma no_event: "trace s' = trace s \<Longrightarrow> \<exists>evs. trace s' = trace s @ map (Pair a) evs"
  by (rule exI[of _ "[]"]) simp

lemma ow_step_events:
  assumes "ow_step c a f oc s = (res, s')"
  shows "\<exists>evs. trace s' = trace s @ map (Pair a) evs"
proof (cases oc)
  case (OW_Run l rw)
  then show ?thesis using assms rw_step_events[of c a rw s]
    by (auto split: prod.splits rw_result.splits)
next
  case (OW_Lookup l)
  then show ?thesis using assms
    by (intro no_event) (auto simp: Let_def read_local_def split: sum.splits option.splits if_splits)
next
  case (OW_Return l)
  then show ?thesis using assms
    by (intro no_event) (auto simp: Let_def read_local_def split: sum.splits option.splits if_splits)
next
  case (OW_AddPool l)
  show ?thesis
  proof (cases "world_type l")
    case None
    with OW_AddPool assms show ?thesis by (intro no_event) (auto simp: read_local_def)
  next
    case (Some wt)
    with OW_AddPool assms show ?thesis
      by (intro one_event[of _ _ _ "EvAddAgentToPool (agent_state f) wt"])
         (auto simp: read_local_def Let_def split: sum.splits)
  qed
next
  case OW_Generate
  then show ?thesis using assms
    by (intro one_event[of _ _ _ "EvGenerateWorld (overworld_name f) [overworld_agent f] (next_wid s)"])
       (auto simp: Let_def split: sum.splits)
next
  case (OW_Test l)
  then show ?thesis using assms
    by (intro one_event[of _ _ _ "EvStopFlag (system_done s)"]) (auto simp: Let_def split: if_splits)
next
  case (OW_Parley l)
  then have "\<exists>res. trace s' = trace s @ [(a, EvParley (overworld l) res)]" using assms
    by (auto simp: Let_def split: sum.splits prod.splits if_splits)
  then show ?thesis using one_event by blast
next
  case (OW_PollSleep l)
  then show ?thesis using assms by (intro one_event[of _ _ _ "EvSleep 500"]) auto
next
  case (OW_Create l k oid)
  then show ?thesis using assms
    by (intro one_event[of _ _ _ "EvCreateAgent oid (agent_id (overworld_agent f))"])
       (auto simp: Let_def split: sum.splits prod.splits)
next
  case (OW_SetActive l k oid ag)
  then show ?thesis using assms
    by (intro one_event[of _ _ _ "EvSetActiveAgent (agent_state f) ag"])
       (auto simp: Let_def split: sum.splits)
next
  case (OW_Assign l k oid ag)
  then show ?thesis using assms
    by (intro one_event[of _ _ _ "EvAssignAgentToTask (agent_state f) ag oid"])
       (auto simp: Let_def split: sum.splits)
next
  case (OW_Store l d)
  then show ?thesis using assms
    by (intro one_event[of _ _ _ "EvSetOnboardData (agent_state f) d"]) auto
next
  case (OW_Log l)
  then show ?thesis using assms
    by (intro one_event[of _ _ _ "EvLog ''onboarding/overworld complete''"]) auto
next
  case (OW_Settle l)
  then show ?thesis using assms by (intro one_event[of _ _ _ "EvSleep 5000"]) auto
next
  case (OW_WaitTest l)
  then show ?thesis using assms
    by (intro one_event[of _ _ _ "EvGetActiveAgent (agent_state f)"]) (auto simp: Let_def split: if_splits)
next
  case (OW_WaitSleep l)
  then show ?thesis using assms by (intro one_event[of _ _ _ "EvSleep 2000"]) auto
next
  case (OW_ReturnOverworld l)
  then show ?thesis using assms
    by (intro one_event[of _ _ _ "EvReturnOverworld (overworld l)"])
       (auto simp: Let_def split: sum.splits)
qed

lemma job_step_events:
  assumes "job_step c j jb s = (jb', s')"
  shows "\<exists>evs. trace s' = trace s @ map (Pair (Worker j)) evs"
proof (cases jb)
  case (TaskStart n t wn ags)
  with assms show ?thesis
    by (intro one_event[of _ _ _ "EvLog (''Starting task '' @ n @ ''...'')"]) auto
next
  case (TaskRun rw)
  then show ?thesis using assms rw_step_events[of c "Worker j" rw s]
    by (auto split: prod.splits rw_result.splits)
next
  case (OverRun f oc)
  then show ?thesis using assms ow_step_events[of c "Worker j" f oc s]
    by (auto split: prod.splits ow_result.splits)
qed (use assms in \<open>auto intro: no_event\<close>)

lemma sd_step_events:
  assumes "sd_step c ctl s = (res, s')"
  shows "\<exists>evs. trace s' = trace s @ map (Pair Main) evs"
proof (cases ctl)
  case (SD_Loop ts)
  then show ?thesis using assms by (cases ts) (auto intro: no_event split: if_splits)
next
  case (SD_Release t ts)
  show ?thesis
  proof (cases "world (task_objs s ! t)")
    case None
    with SD_Release assms show ?thesis by (intro no_event) auto
  next
    case (Some w)
    with SD_Release assms show ?thesis
      by (intro one_event[of _ _ _ "EvWorldShutdown w"]) (auto simp: Let_def split: sum.splits)
  qed
next
  case SD_Log
  then show ?thesis using assms
    by (cases "debug s") (auto simp: debug_log_def intro: no_event one_event)
next
  case SD_Complete
  then show ?thesis using assms
    by (cases "debug s") (auto simp: debug_log_def intro: no_event one_event)
qed (use assms in \<open>auto intro: no_event split: if_splits\<close>)

lemma exec_events_other:
  assumes "a \<noteq> Step j"
  shows "\<exists>evs. trace (exec c a s) = trace s @ evs \<and> filter (\<lambda>p. fst p = Worker j) evs = []"
proof (cases a)
  case (Step i)
  with assms have ij: "i \<noteq> j" by simp
  show ?thesis
  proof (cases "i < length (jobs s)")
    case True
    obtain jb s1 where js: "job_step c i (jobs s ! i) s = (jb, s1)"
      by (cases "job_step c i (jobs s ! i) s")
    from job_step_events[OF js] obtain evs where "trace s1 = trace s @ map (Pair (Worker i)) evs"
      by blast
    with step_at[OF True js] Step ij
    have "trace (exec c a s) = trace s @ map (Pair (Worker i)) evs
        \<and> filter (\<lambda>p. fst p = Worker j) (map (Pair (Worker i)) evs) = []"
      by (simp add: filter_empty_conv)
    then show ?thesis by blast
  qed (simp add: Step step_def)
next
  case Shutdown
  show ?thesis
  proof (cases "main s")
    case (M_Shutdown ctl)
    obtain r s1 where st: "sd_step c ctl s = (r, s1)" by (cases "sd_step c ctl s")
    from sd_step_events[OF st] obtain evs where "trace s1 = trace s @ map (Pair Main) evs" by blast
    with M_Shutdown st Shutdown
    have "trace (exec c a s) = trace s @ map (Pair Main) evs
        \<and> filter (\<lambda>p. fst p = Worker j) (map (Pair Main) evs) = []"
      by (cases r) (simp_all add: shutdown_step_def filter_empty_conv)
    then show ?thesis by blast
  qed (simp_all add: Shutdown shutdown_step_def)
qed (simp_all add: launch_task_world_def register_def submit_def set_future_def
      launch_overworld_def Let_def split: sum.splits)

lemma since_refl [simp]: "since j s s = []"
  by (simp add: since_def)

lemma since_append:
  "trace s1 = trace s @ xs \<Longrightarrow> trace s2 = trace s1 @ ys \<Longrightarrow>
     since j s s2 = since j s s1 @ map snd (filter (\<lambda>p. fst p = Worker j) ys)"
  by (simp add: since_def)

text \<open>
  A property of a job and of the calls it has made so far that holds at the start and is
  kept by every statement of the job holds throughout every execution: the statements of the
  other threads change neither the job nor its calls.
\<close>

lemma job_invariant:
  assumes "j < length (jobs s)" and "R (jobs s ! j) []"
    and step: "\<And>jb evs0 s1 jb' s1' evs. R jb evs0 \<Longrightarrow> job_step c j jb s1 = (jb', s1') \<Longrightarrow>
        trace s1' = trace s1 @ map (Pair (Worker j)) evs \<Longrightarrow> R jb' (evs0 @ evs)"
  shows "R (jobs (run c acts s) ! j) (since j s (run c acts s))"
proof (induction acts rule: rev_induct)
  case Nil
  then show ?case using assms(2) by (simp add: run_def)
next
  case (snoc a acts)
  let ?m = "run c acts s"
  have jl: "j < length (jobs ?m)" using assms(1) run_jobs_length[of s c acts] by simp
  obtain xs where xs: "trace ?m = trace s @ xs" using run_trace[of c acts s] by blast
  show ?case
  proof (cases "a = Step j")
    case True
    obtain jb' s1' where js: "job_step c j (jobs ?m ! j) ?m = (jb', s1')"
      by (cases "job_step c j (jobs ?m ! j) ?m")
    from job_step_events[OF js] obtain evs where ev: "trace s1' = trace ?m @ map (Pair (Worker j)) evs"
      by blast
    from step_at[OF jl js] have st: "exec c a ?m = s1'\<lparr>jobs := (jobs ?m)[j := jb']\<rparr>"
      using True by simp
    have t2: "trace (exec c a ?m) = trace ?m @ map (Pair (Worker j)) evs" using st ev by simp
    have "filter (\<lambda>p. fst p = Worker j) (map (Pair (Worker j)) evs) = map (Pair (Worker j)) evs"
      by (induction evs) simp_all
    then have sn: "since j s (exec c a ?m) = since j s ?m @ evs"
      using since_append[OF xs t2, of j] by (simp add: comp_def)
    have jj: "jobs (exec c a ?m) ! j = jb'" using st jl by simp
    from step[OF snoc js ev] show ?thesis by (simp add: run_snoc sn jj)
  next
    case False
    from exec_events_other[OF False, of c ?m] obtain ys
      where ys: "trace (exec c a ?m) = trace ?m @ ys" "filter (\<lambda>p. fst p = Worker j) ys = []"
      by blast
    have sn: "since j s (exec c a ?m) = since j s ?m"
      using since_append[OF xs ys(1), of j] ys(2) by simp
    from exec_other_job[OF jl False, of c] snoc show ?thesis by (simp add: run_snoc sn)
  qed
qed

section \<open>The task world loop\<close>

lemma tw_run_append:
  "tw_run w m (xs @ ys) = (case tw_run w m xs of None \<Rightarrow> None | Some m' \<Rightarrow> tw_run w m' ys)"
  by (induction xs arbitrary: m) (auto split: option.splits)

lemma tw_step:
  assumes "job_step c j jb s = (jb', s')"
    and "trace s' = trace s @ map (Pair (Worker j)) evs"
    and "tw_of jb = Some m" and "job_session jb = Some w \<or> (\<exists>r d. jb = Done (TaskResult r d))"
  shows "failed jb' \<or> (tw_run w m evs = tw_of jb' \<and> tw_of jb' \<noteq> None
            \<and> (job_session jb' = Some w \<or> (\<exists>r d. jb' = Done (TaskResult r d))))"
proof (cases jb)
  case (TaskRun rw)
  show ?thesis
  proof (cases rw)
    case (RW_Test w' r)
    with TaskRun assms show ?thesis
      by (cases "episode_done c w' (env s)"; cases "system_done s") (auto simp: Let_def)
  next
    case (RW_Parley w' r)
    with TaskRun assms show ?thesis
      by (cases "parley c w' (env s)") (auto simp: Let_def split: prod.splits)
  next
    case (RW_Sleep w' r)
    with TaskRun assms show ?thesis by auto
  next
    case (RW_Shutdown w' r)
    with TaskRun assms show ?thesis
      by (cases "world_shutdown c w' (env s)") (auto simp: Let_def)
  next
    case (RW_Return w' r)
    with TaskRun assms show ?thesis by (auto simp: Let_def)
  next
    case (RW_Generate t wn ags)
    with TaskRun assms show ?thesis by simp
  qed
next
  case (Done out)
  with assms show ?thesis by (cases out) auto
qed (use assms in auto)

text \<open>
  Claim C3.  A task world job is in its loop, or past it, on the session \<open>w\<close>.  In every
  execution, for as long as the job has not failed, the calls it makes are accepted by the
  state machine of the specification, which ends up in the state the job is in: the loop
  steps and delays while the episode is not complete and the stop flag is not observed, it
  leaves \<open>RUNNING\<close> exactly on one of the two, then releases the session, extracts the
  payload and returns the pair of the last step result and the payload.  What the calls are
  and what they return is what the collaborators answer: the test of the loop leaves the
  loop exactly when the session reports its episode complete or the stop flag is set, and
  the loop is left by no other statement; the step's result is captured; on exit the
  session's release is applied; the payload is the session's data, or the empty mapping; the
  job settles with the pair.
\<close>

theorem task_world_loop_refines_spec:
  assumes "j < length (jobs s)" and "jobs s ! j = TaskRun rw" and "rw_session rw = Some w"
    and "tw_of (TaskRun rw) = Some m0"
  shows "(\<forall>acts. failed (jobs (run c acts s) ! j)
            \<or> (tw_run w m0 (since j s (run c acts s)) = tw_of (jobs (run c acts s) ! j)
                \<and> tw_of (jobs (run c acts s) ! j) \<noteq> None))
    \<and> (\<forall>s2 r. j < length (jobs s2) \<and> jobs s2 ! j = TaskRun (RW_Test w r) \<longrightarrow>
          jobs (step c j s2) ! j =
            TaskRun (if episode_done c w (env s2) \<or> system_done s2
                     then RW_Shutdown w r else RW_Parley w r)
          \<and> env (step c j s2) = env s2)
    \<and> (\<forall>s2 rw2. j < length (jobs s2) \<and> jobs s2 ! j = TaskRun rw2 \<and> rw_looping rw2
          \<and> \<not> running (jobs (step c j s2) ! j) \<and> \<not> failed (jobs (step c j s2) ! j) \<longrightarrow>
          (\<exists>w2 r. rw2 = RW_Test w2 r \<and> (episode_done c w2 (env s2) \<or> system_done s2)))
    \<and> (\<forall>s2 r. j < length (jobs s2) \<and> jobs s2 ! j = TaskRun (RW_Parley w r) \<longrightarrow>
          (case parley c w (env s2) of
             Inl e \<Rightarrow> jobs (step c j s2) ! j = Failed e \<and> env (step c j s2) = env s2
           | Inr (v, e') \<Rightarrow> jobs (step c j s2) ! j = TaskRun (RW_Sleep w v) \<and> env (step c j s2) = e'))
    \<and> (\<forall>s2 r. j < length (jobs s2) \<and> jobs s2 ! j = TaskRun (RW_Sleep w r) \<longrightarrow>
          jobs (step c j s2) ! j = TaskRun (RW_Test w r) \<and> env (step c j s2) = env s2
          \<and> trace (step c j s2) = trace s2 @ [(Worker j, EvSleep 300)])
    \<and> (\<forall>s2 r. j < length (jobs s2) \<and> jobs s2 ! j = TaskRun (RW_Shutdown w r) \<longrightarrow>
          (case world_shutdown c w (env s2) of
             Inl e \<Rightarrow> jobs (step c j s2) ! j = Failed e \<and> env (step c j s2) = env s2
           | Inr e' \<Rightarrow> jobs (step c j s2) ! j = TaskRun (RW_Return w r) \<and> env (step c j s2) = e'))
    \<and> (\<forall>s2 r. j < length (jobs s2) \<and> jobs s2 ! j = TaskRun (RW_Return w r) \<longrightarrow>
          jobs (step c j s2) ! j =
            Done (TaskResult r (case world_data c w (env s2) of None \<Rightarrow> [] | Some d \<Rightarrow> d))
          \<and> env (step c j s2) = env s2)
    \<and> (\<forall>s2 t wn ags. j < length (jobs s2) \<and> jobs s2 ! j = TaskRun (RW_Generate t wn ags) \<longrightarrow>
          (case generate_world c wn ags (next_wid s2) (env s2) of
             Inl e \<Rightarrow> jobs (step c j s2) ! j = Failed e
           | Inr e' \<Rightarrow> jobs (step c j s2) ! j = TaskRun (RW_Test (next_wid s2) PNone)
                       \<and> env (step c j s2) = e'))"
proof -
  define R where "R jb evs \<longleftrightarrow>
      failed jb \<or> (tw_run w m0 evs = tw_of jb \<and> tw_of jb \<noteq> None
         \<and> (job_session jb = Some w \<or> (\<exists>r d. jb = Done (TaskResult r d))))" for jb evs
  have base: "R (jobs s ! j) []" using assms(2,3,4) by (simp add: R_def)
  have stp: "R jb' (evs0 @ evs)"
    if r: "R jb evs0" and js: "job_step c j jb s1 = (jb', s1')"
      and tr: "trace s1' = trace s1 @ map (Pair (Worker j)) evs" for jb evs0 s1 jb' s1' evs
  proof (cases "failed jb")
    case True
    then obtain e where "jb = Failed e" by (cases jb) auto
    with js show ?thesis by (auto simp: R_def)
  next
    case False
    with r obtain m where m: "tw_run w m0 evs0 = Some m" "tw_of jb = Some m"
      and se: "job_session jb = Some w \<or> (\<exists>r d. jb = Done (TaskResult r d))"
      by (auto simp: R_def)
    from tw_step[OF js tr m(2) se] m(1) show ?thesis
      by (auto simp: R_def tw_run_append)
  qed
  have p1: "\<forall>acts. failed (jobs (run c acts s) ! j)
            \<or> (tw_run w m0 (since j s (run c acts s)) = tw_of (jobs (run c acts s) ! j)
                \<and> tw_of (jobs (run c acts s) ! j) \<noteq> None)"
  proof
    fix acts
    have "R (jobs (run c acts s) ! j) (since j s (run c acts s))"
      by (rule job_invariant[where R = R, OF assms(1) base stp])
    then show "failed (jobs (run c acts s) ! j)
            \<or> (tw_run w m0 (since j s (run c acts s)) = tw_of (jobs (run c acts s) ! j)
                \<and> tw_of (jobs (run c acts s) ! j) \<noteq> None)"
      by (auto simp: R_def)
  qed
  have p2: "\<forall>s2 r. j < length (jobs s2) \<and> jobs s2 ! j = TaskRun (RW_Test w r) \<longrightarrow>
          jobs (step c j s2) ! j =
            TaskRun (if episode_done c w (env s2) \<or> system_done s2
                     then RW_Shutdown w r else RW_Parley w r)
          \<and> env (step c j s2) = env s2"
    by (simp add: step_def Let_def)
  have p3: "\<forall>s2 rw2. j < length (jobs s2) \<and> jobs s2 ! j = TaskRun rw2 \<and> rw_looping rw2
          \<and> \<not> running (jobs (step c j s2) ! j) \<and> \<not> failed (jobs (step c j s2) ! j) \<longrightarrow>
          (\<exists>w2 r. rw2 = RW_Test w2 r \<and> (episode_done c w2 (env s2) \<or> system_done s2))"
  proof (intro allI impI)
    fix s2 :: "'a state" and rw2
    assume h: "j < length (jobs s2) \<and> jobs s2 ! j = TaskRun rw2 \<and> rw_looping rw2
          \<and> \<not> running (jobs (step c j s2) ! j) \<and> \<not> failed (jobs (step c j s2) ! j)"
    then have f: "\<not> running (fst (job_step c j (TaskRun rw2) s2))"
      "\<not> failed (fst (job_step c j (TaskRun rw2) s2))"
      using step_job[of j s2 c] by simp_all
    show "\<exists>w2 r. rw2 = RW_Test w2 r \<and> (episode_done c w2 (env s2) \<or> system_done s2)"
      using f h by (cases rw2) (auto simp: Let_def split: sum.splits prod.splits if_splits)
  qed
  have p4: "\<forall>s2 r. j < length (jobs s2) \<and> jobs s2 ! j = TaskRun (RW_Parley w r) \<longrightarrow>
          (case parley c w (env s2) of
             Inl e \<Rightarrow> jobs (step c j s2) ! j = Failed e \<and> env (step c j s2) = env s2
           | Inr (v, e') \<Rightarrow> jobs (step c j s2) ! j = TaskRun (RW_Sleep w v) \<and> env (step c j s2) = e')"
    by (auto simp: step_def Let_def split: sum.splits prod.splits)
  have p5: "\<forall>s2 r. j < length (jobs s2) \<and> jobs s2 ! j = TaskRun (RW_Sleep w r) \<longrightarrow>
          jobs (step c j s2) ! j = TaskRun (RW_Test w r) \<and> env (step c j s2) = env s2
          \<and> trace (step c j s2) = trace s2 @ [(Worker j, EvSleep 300)]"
    by (simp add: step_def)
  have p6: "\<forall>s2 r. j < length (jobs s2) \<and> jobs s2 ! j = TaskRun (RW_Shutdown w r) \<longrightarrow>
          (case world_shutdown c w (env s2) of
             Inl e \<Rightarrow> jobs (step c j s2) ! j = Failed e \<and> env (step c j s2) = env s2
           | Inr e' \<Rightarrow> jobs (step c j s2) ! j = TaskRun (RW_Return w r) \<and> env (step c j s2) = e')"
    by (simp add: step_def Let_def split: sum.splits)
  have p7: "\<forall>s2 r. j < length (jobs s2) \<and> jobs s2 ! j = TaskRun (RW_Return w r) \<longrightarrow>
          jobs (step c j s2) ! j =
            Done (TaskResult r (case world_data c w (env s2) of None \<Rightarrow> [] | Some d \<Rightarrow> d))
          \<and> env (step c j s2) = env s2"
    by (simp add: step_def Let_def)
  have p8: "\<forall>s2 t wn ags. j < length (jobs s2) \<and> jobs s2 ! j = TaskRun (RW_Generate t wn ags) \<longrightarrow>
          (case generate_world c wn ags (next_wid s2) (env s2) of
             Inl e \<Rightarrow> jobs (step c j s2) ! j = Failed e
           | Inr e' \<Rightarrow> jobs (step c j s2) ! j = TaskRun (RW_Test (next_wid s2) PNone)
                       \<and> env (step c j s2) = e')"
    by (simp add: step_def Let_def split: sum.splits)
  from p1 p2 p3 p4 p5 p6 p7 p8 show ?thesis by (intro conjI)
qed

theorem task_world_loop_refines_spec_witness:
  "jobs (run demo [Step 0, Step 0, Step 0, Step 0, Step 0, Step 0, Step 0, Step 0, Step 0]
          (demo_task_running (demo_env0 [PStr ''a'', PStr ''b'']))) ! 0
     = Done (TaskResult (PStr ''b'') [])
   \<and> tw_run 0 (TW_Running PNone)
       (since 0 (demo_task_running (demo_env0 [PStr ''a'', PStr ''b'']))
          (run demo [Step 0, Step 0, Step 0, Step 0, Step 0, Step 0, Step 0, Step 0, Step 0]
             (demo_task_running (demo_env0 [PStr ''a'', PStr ''b'']))))
     = Some (TW_Done (PStr ''b'') [])
   \<and> released (env (run demo [Step 0, Step 0, Step 0, Step 0, Step 0, Step 0, Step 0, Step 0, Step 0]
          (demo_task_running (demo_env0 [PStr ''a'', PStr ''b''])))) = [0]
   \<and> jobs (step demo 0 (run demo [Shutdown, Shutdown, Shutdown, Shutdown, Shutdown]
          (demo_task_running (demo_env0 [PStr ''a'', PStr ''b''])))) ! 0
     = TaskRun (RW_Shutdown 0 PNone)"
proof -
  let ?s = "demo_task_running (demo_env0 [PStr ''a'', PStr ''b''])"
  let ?acts = "[Step 0, Step 0, Step 0, Step 0, Step 0, Step 0, Step 0, Step 0, Step 0] :: demo_env action list"
  let ?q = "run demo [Shutdown, Shutdown, Shutdown, Shutdown, Shutdown] ?s"
  have h1: "0 < length (jobs ?s)" by (simp add: demo_task_running_def demo_simps)
  have h2: "jobs ?s ! 0 = TaskRun (RW_Test 0 PNone)" by (simp add: demo_task_running_def demo_simps)
  have h3: "rw_session (RW_Test 0 PNone) = Some 0" by simp
  have h4: "tw_of (TaskRun (RW_Test 0 PNone)) = Some (TW_Running PNone)" by simp
  have dn: "jobs (run demo ?acts ?s) ! 0 = Done (TaskResult (PStr ''b'') [])"
    by (simp add: demo_task_running_def demo_simps)
  have rl: "released (env (run demo ?acts ?s)) = [0]"
    by (simp add: demo_task_running_def demo_simps)
  have hq: "0 < length (jobs ?q) \<and> jobs ?q ! 0 = TaskRun (RW_Test 0 PNone)"
    by (simp add: demo_task_running_def demo_simps)
  have fq: "system_done ?q" by (simp add: demo_task_running_def demo_simps)
  note th = task_world_loop_refines_spec[OF h1 h2 h3 h4, of demo]
  from th[THEN conjunct1, THEN spec, of ?acts] dn
  have c2: "tw_run 0 (TW_Running PNone) (since 0 ?s (run demo ?acts ?s)) = Some (TW_Done (PStr ''b'') [])"
    by simp
  from th[THEN conjunct2, THEN conjunct1, THEN spec, THEN spec, THEN mp, OF hq] fq
  have c4: "jobs (step demo 0 ?q) ! 0 = TaskRun (RW_Shutdown 0 PNone)" by simp
  from dn c2 rl c4 show ?thesis by (intro conjI)
qed

end
